theory Spec2Isabelle
  imports Complex_Main "HOL-Library.Word" "HOL-Library.Product_Lexorder" "HOL-Library.Multiset"
begin

unbundle bit_operations_syntax

section \<open>Errors\<close>

text \<open>
  Every failure of the codec is a \<open>std::runtime_error\<close> carrying a message. A function
  that can throw returns \<open>error + 'a\<close>, with \<open>Inl\<close> for the exception.
\<close>

datatype error = runtime_error string | undefined_behaviour string

text \<open>
  \<open>undefined_behaviour\<close> marks the places where the C++ has no defined result (a
  write outside a vector, an iterator range that ends before it starts); the model
  stops there. Sequencing of calls that can throw:
\<close>

definition ebind :: "error + 'a \<Rightarrow> ('a \<Rightarrow> error + 'b) \<Rightarrow> error + 'b" where
  "ebind m f = (case m of Inl e \<Rightarrow> Inl e | Inr x \<Rightarrow> f x)"

section \<open>Zero run-length coding (entropy/rle.cpp)\<close>

text \<open>
  \<open>struct RlePair { int16_t value; uint16_t run; }\<close>. Both fields are 16-bit words; the
  sign of \<open>value\<close> only matters where it is compared with zero, which is the same test on
  the bit pattern.
\<close>

record RlePair =
  rle_value :: "16 word"
  rle_run :: "16 word"

text \<open>
  The inner loop of \<open>rle_encode_zeros\<close> over the AC coefficients of one block. The
  state is the counter \<open>run\<close>; the result is the list of pairs pushed to \<open>rle_out\<close> and
  the counter after the last coefficient. On a zero the counter is first tested against
  \<open>0xFFFF\<close> (pair pushed, counter reset) and then incremented.
\<close>

fun rle_ac :: "16 word list \<Rightarrow> 16 word \<Rightarrow> RlePair list \<times> 16 word" where
  "rle_ac [] run = ([], run)"
| "rle_ac (v # vs) run =
     (if v = 0 then
        (if run = 0xFFFF
         then (let (ps, r) = rle_ac vs (0 + 1) in (\<lparr>rle_value = 0, rle_run = run\<rparr> # ps, r))
         else rle_ac vs (run + 1))
      else (let (ps, r) = rle_ac vs 0 in (\<lparr>rle_value = v, rle_run = run\<rparr> # ps, r)))"

text \<open>The pair pushed after a block when the counter is positive: \<open>(0, run - 1)\<close>.\<close>

definition rle_trailing :: "16 word \<Rightarrow> RlePair list" where
  "rle_trailing run = (if 0 < run then [\<lparr>rle_value = 0, rle_run = run - 1\<rparr>] else [])"

text \<open>
  One iteration of the outer loop: the DC coefficient is pushed as \<open>(dc, 0)\<close>, the next
  \<open>block_elems - 1\<close> coefficients go through the inner loop, then the trailing pair.
\<close>

definition rle_block :: "16 word \<Rightarrow> 16 word list \<Rightarrow> RlePair list" where
  "rle_block dc ac =
     (let (ps, run) = rle_ac ac 0
      in \<lparr>rle_value = dc, rle_run = 0\<rparr> # ps @ rle_trailing run)"

fun rle_blocks :: "nat \<Rightarrow> 16 word list \<Rightarrow> RlePair list" where
  "rle_blocks block_elems [] = []"
| "rle_blocks block_elems (dc # rest) =
     rle_block dc (take (block_elems - 1) rest)
       @ rle_blocks block_elems (drop (block_elems - 1) rest)"

definition rle_encode_zeros :: "16 word list \<Rightarrow> int \<Rightarrow> error + RlePair list" where
  "rle_encode_zeros seq_in block_size =
     (if block_size \<noteq> 8 \<and> block_size \<noteq> 16
      then Inl (runtime_error ''rle_encode_zeros: block_size must be 8 or 16'')
      else if length seq_in mod nat (block_size * block_size) \<noteq> 0
      then Inl (runtime_error ''rle_encode_zeros: input size not multiple of block'')
      else Inr (rle_blocks (nat (block_size * block_size)) seq_in))"

text \<open>
  \<open>rle_decode_zeros\<close>: for each pair, \<open>run\<close> zeros and then the value are appended; the
  size is checked against \<open>total_coeffs\<close> after every pair and once more at the end.
\<close>

fun rle_decode_loop :: "nat \<Rightarrow> RlePair list \<Rightarrow> 16 word list \<Rightarrow> error + 16 word list" where
  "rle_decode_loop total_coeffs [] seq_out = Inr seq_out"
| "rle_decode_loop total_coeffs (p # ps) seq_out =
     (let out' = seq_out @ replicate (unat (rle_run p)) 0 @ [rle_value p]
      in if total_coeffs < length out'
         then Inl (runtime_error ''rle_decode_zeros: output exceeds expected size'')
         else rle_decode_loop total_coeffs ps out')"

definition rle_decode_zeros :: "RlePair list \<Rightarrow> int \<Rightarrow> nat \<Rightarrow> error + 16 word list" where
  "rle_decode_zeros rle_in block_size total_coeffs =
     (if block_size \<noteq> 8 \<and> block_size \<noteq> 16
      then Inl (runtime_error ''rle_decode_zeros: block_size must be 8 or 16'')
      else (case rle_decode_loop total_coeffs rle_in [] of
              Inl e \<Rightarrow> Inl e
            | Inr seq_out \<Rightarrow>
                if length seq_out \<noteq> total_coeffs
                then Inl (runtime_error ''rle_decode_zeros: output size mismatch'')
                else Inr seq_out))"

text \<open>What a pair list stands for: each pair is \<open>run\<close> zeros followed by its value.\<close>

definition rle_expand :: "RlePair list \<Rightarrow> 16 word list" where
  "rle_expand ps = concat (map (\<lambda>p. replicate (unat (rle_run p)) 0 @ [rle_value p]) ps)"

section \<open>Pairs and 32-bit symbols (entropy/rle.cpp)\<close>

text \<open>\<open>pack_rle_symbols\<close>: \<open>(uint32_t(run) << 16) | uint16_t(value)\<close>.\<close>

definition pack_symbol :: "RlePair \<Rightarrow> 32 word" where
  "pack_symbol p = push_bit 16 (ucast (rle_run p) :: 32 word) OR ucast (rle_value p)"

definition pack_rle_symbols :: "RlePair list \<Rightarrow> 32 word list" where
  "pack_rle_symbols pairs = map pack_symbol pairs"

text \<open>\<open>unpack_rle_symbols\<close>: the run is the high half, the value the low half.\<close>

definition unpack_symbol :: "32 word \<Rightarrow> RlePair" where
  "unpack_symbol s =
     \<lparr>rle_value = ucast (s AND 0xFFFF), rle_run = ucast (drop_bit 16 s)\<rparr>"

definition unpack_rle_symbols :: "32 word list \<Rightarrow> RlePair list" where
  "unpack_rle_symbols symbols = map unpack_symbol symbols"

section \<open>Images (io/image_types.hpp)\<close>

datatype PixelType = U8 | U16 | S16

text \<open>
  \<open>struct Image\<close>. The \<open>int\<close> fields are integers; pixels are \<open>int32_t\<close> values, kept as
  integers, with the two's complement wrap-around written out (\<open>int32\<close>) where the code
  adds to or subtracts from a pixel. The field \<open>type\<close> is \<open>pixel_type\<close> here. The sizes
  are values of \<open>int\<close>; where the code forms a product or a sum of sizes in \<open>int\<close>, or
  casts \<open>pixels.size()\<close> to \<open>int\<close>, the result is taken in 32 bits (\<open>int32\<close>), which is
  what the compiled code computes.
\<close>

record Image =
  width :: int
  height :: int
  channels :: int
  bits_stored :: int
  bits_allocated :: int
  is_signed :: bool
  pixel_type :: PixelType
  pixels :: "int list"

definition int32 :: "int \<Rightarrow> int" where
  "int32 x = sint (word_of_int x :: 32 word)"

text \<open>The quotient of two \<open>int\<close> values in C++: truncated towards zero.\<close>

definition cdiv :: "int \<Rightarrow> int \<Rightarrow> int" where
  "cdiv a b = sgn a * sgn b * (\<bar>a\<bar> div \<bar>b\<bar>)"

section \<open>Level shift (preprocess/level_shift.cpp)\<close>

definition clamp_i32 :: "int \<Rightarrow> int \<Rightarrow> int \<Rightarrow> int" where
  "clamp_i32 v lo hi = min (max v lo) hi"

text \<open>
  \<open>apply_level_shift\<close>: returns at once on an empty pixel buffer, then checks
  \<open>bits_stored\<close>, then leaves a signed image alone, and otherwise subtracts
  \<open>1 << (bits_stored - 1)\<close> from every pixel and marks the image signed.
\<close>

definition apply_level_shift :: "Image \<Rightarrow> error + Image" where
  "apply_level_shift img =
     (if pixels img = [] then Inr img
      else if bits_stored img \<le> 0 \<or> 16 < bits_stored img
      then Inl (runtime_error ''apply_level_shift: invalid bits_stored'')
      else if is_signed img then Inr img
      else (let offset = 2 ^ nat (bits_stored img - 1)
            in Inr (img\<lparr>pixels := map (\<lambda>v. int32 (v - offset)) (pixels img),
                         is_signed := True\<rparr>)))"

text \<open>
  \<open>inverse_level_shift\<close>: the same two guards, then every pixel becomes
  \<open>clamp(v + offset, 0, (1 << bits_stored) - 1)\<close> and the image is marked unsigned.
\<close>

definition inverse_level_shift :: "Image \<Rightarrow> error + Image" where
  "inverse_level_shift img =
     (if pixels img = [] then Inr img
      else if bits_stored img \<le> 0 \<or> 16 < bits_stored img
      then Inl (runtime_error ''inverse_level_shift: invalid bits_stored'')
      else (let offset = 2 ^ nat (bits_stored img - 1);
                minv = 0;
                maxv = 2 ^ nat (bits_stored img) - 1
            in Inr (img\<lparr>pixels := map (\<lambda>v. clamp_i32 (int32 (v + offset)) minv maxv) (pixels img),
                         is_signed := False\<rparr>)))"

section \<open>Block grid and tiling (block/tiling.cpp)\<close>

record BlockGrid =
  grid_block_size :: int
  blocks_x :: int
  blocks_y :: int
  padded_w :: int
  padded_h :: int

definition make_grid :: "int \<Rightarrow> int \<Rightarrow> int \<Rightarrow> error + BlockGrid" where
  "make_grid w h bs =
     (if bs \<noteq> 8 \<and> bs \<noteq> 16
      then Inl (runtime_error ''make_grid: block_size must be 8 or 16'')
      else if w \<le> 0 \<or> h \<le> 0
      then Inl (runtime_error ''make_grid: invalid image size'')
      else (let bx = cdiv (int32 (w + bs - 1)) bs;
                by = cdiv (int32 (h + bs - 1)) bs
            in Inr \<lparr>grid_block_size = bs,
                    blocks_x = bx,
                    blocks_y = by,
                    padded_w = int32 (bx * bs),
                    padded_h = int32 (by * bs)\<rparr>))"

text \<open>
  \<open>tile_to_blocks\<close>: a zero-filled raster of \<open>padded_w * padded_h\<close> samples whose entry
  \<open>y * padded_w + x\<close> is pixel \<open>y * width + x\<close> for \<open>y < height\<close>, \<open>x < width\<close>. The model
  gives the value at each index of the result, which is what the two copy loops leave
  there for a grid at least as large as the image (every grid of \<open>make_grid\<close> that
  passes the check on \<open>padded_w\<close> and \<open>padded_h\<close>). The size check compares two \<open>int\<close>
  values, so a buffer can pass it without having \<open>width * height\<close> entries; the copy
  loops then read \<open>img.pixels\<close> outside the buffer when it is shorter than that.
\<close>

definition tile_to_blocks :: "Image \<Rightarrow> BlockGrid \<Rightarrow> error + int list" where
  "tile_to_blocks img g =
     (if channels img \<noteq> 1
      then Inl (runtime_error ''tile_to_blocks: only grayscale supported'')
      else if width img \<le> 0 \<or> height img \<le> 0
      then Inl (runtime_error ''tile_to_blocks: invalid image size'')
      else if int32 (int (length (pixels img))) \<noteq> int32 (width img * height img)
      then Inl (runtime_error ''tile_to_blocks: pixel buffer mismatch'')
      else if padded_w g \<le> 0 \<or> padded_h g \<le> 0
      then Inl (runtime_error ''tile_to_blocks: invalid grid'')
      else if int (length (pixels img)) < width img * height img
      then Inl (undefined_behaviour ''tile_to_blocks: read outside the pixel buffer'')
      else (let w = nat (width img); h = nat (height img); pw = nat (padded_w g)
            in Inr (map (\<lambda>i. if i div pw < h \<and> i mod pw < w
                                then pixels img ! ((i div pw) * w + i mod pw)
                                else 0)
                        [0..<nat (padded_w g * padded_h g)])))"

text \<open>
  \<open>untile_from_blocks\<close>: the pixel buffer is resized to \<open>width * height\<close> and pixel
  \<open>y * width + x\<close> is read from entry \<open>y * padded_w + x\<close> of the padded raster.
\<close>

definition untile_from_blocks :: "Image \<Rightarrow> BlockGrid \<Rightarrow> int list \<Rightarrow> error + Image" where
  "untile_from_blocks img g padded =
     (if channels img \<noteq> 1
      then Inl (runtime_error ''untile_from_blocks: only grayscale supported'')
      else if width img \<le> 0 \<or> height img \<le> 0
      then Inl (runtime_error ''untile_from_blocks: invalid image size'')
      else if int32 (int (length padded)) \<noteq> int32 (padded_w g * padded_h g)
      then Inl (runtime_error ''untile_from_blocks: padded buffer mismatch'')
      else (let w = nat (width img); pw = nat (padded_w g)
            in Inr (img\<lparr>pixels := map (\<lambda>i. padded ! ((i div w) * pw + i mod w))
                                        [0..<nat (width img * height img)]\<rparr>)))"

section \<open>Zigzag scan (block/zigzag.cpp)\<close>

text \<open>
  One antidiagonal \<open>x + y = s\<close> of \<open>make_zigzag_order\<close>: for even \<open>s\<close> the loop runs over
  \<open>x\<close> with \<open>y = s - x\<close>, for odd \<open>s\<close> over \<open>y\<close> with \<open>x = s - y\<close>; cells outside the block
  are skipped. The list is the sequence of values written to \<open>order[idx++]\<close>.
\<close>

definition zigzag_diagonal :: "nat \<Rightarrow> nat \<Rightarrow> nat list" where
  "zigzag_diagonal N s =
     (if even s
      then map (\<lambda>x. (s - x) * N + x) (filter (\<lambda>x. x < N \<and> s - x < N) [0..<Suc s])
      else map (\<lambda>y. y * N + (s - y)) (filter (\<lambda>y. s - y < N \<and> y < N) [0..<Suc s]))"

definition make_zigzag_order :: "int \<Rightarrow> error + nat list" where
  "make_zigzag_order N =
     (if N \<le> 0 then Inl (runtime_error ''make_zigzag_order: N must be positive'')
      else Inr (concat (map (zigzag_diagonal (nat N)) [0..<Suc (2 * (nat N - 1))])))"

text \<open>Block \<open>b\<close> of a buffer of whole blocks.\<close>

definition block_at :: "nat \<Rightarrow> 'a list \<Rightarrow> nat \<Rightarrow> 'a list" where
  "block_at block_elems xs b = take block_elems (drop (b * block_elems) xs)"

text \<open>\<open>dst[i] = src[order[i]]\<close> for one block.\<close>

definition zigzag_scan_block :: "nat list \<Rightarrow> 16 word list \<Rightarrow> 16 word list" where
  "zigzag_scan_block order src = map (\<lambda>i. src ! (order ! i)) [0..<length src]"

definition zigzag_scan_blocks :: "16 word list \<Rightarrow> int \<Rightarrow> error + 16 word list" where
  "zigzag_scan_blocks qcoeff_in bs =
     (if bs \<noteq> 8 \<and> bs \<noteq> 16
      then Inl (runtime_error ''zigzag_scan_blocks: block_size must be 8 or 16'')
      else if length qcoeff_in mod nat (bs * bs) \<noteq> 0
      then Inl (runtime_error ''zigzag_scan_blocks: input size not multiple of block'')
      else (case make_zigzag_order bs of
              Inl e \<Rightarrow> Inl e
            | Inr order \<Rightarrow>
                Inr (concat (map (\<lambda>b. zigzag_scan_block order (block_at (nat (bs * bs)) qcoeff_in b))
                                 [0..<length qcoeff_in div nat (bs * bs)]))))"

text \<open>
  \<open>dst[order[i]] = src[i]\<close> for one block, into the block of the resized (zero-filled)
  output.
\<close>

definition inverse_zigzag_block :: "nat list \<Rightarrow> 16 word list \<Rightarrow> 16 word list" where
  "inverse_zigzag_block order src =
     fold (\<lambda>i dst. dst[order ! i := src ! i]) [0..<length src] (replicate (length src) 0)"

definition inverse_zigzag_blocks :: "16 word list \<Rightarrow> int \<Rightarrow> error + 16 word list" where
  "inverse_zigzag_blocks seq_in bs =
     (if bs \<noteq> 8 \<and> bs \<noteq> 16
      then Inl (runtime_error ''inverse_zigzag_blocks: block_size must be 8 or 16'')
      else if length seq_in mod nat (bs * bs) \<noteq> 0
      then Inl (runtime_error ''inverse_zigzag_blocks: input size not multiple of block'')
      else (case make_zigzag_order bs of
              Inl e \<Rightarrow> Inl e
            | Inr order \<Rightarrow>
                Inr (concat (map (\<lambda>b. inverse_zigzag_block order (block_at (nat (bs * bs)) seq_in b))
                                 [0..<length seq_in div nat (bs * bs)]))))"

section \<open>Single-precision arithmetic\<close>

text \<open>
  A finite \<open>float\<close> is the rational number it stands for. \<open>fl32\<close> rounds a rational to
  the nearest binary32 value, ties to the even significand: the value is divided by the
  weight \<open>2^(e - 23)\<close> of the last place, where \<open>e\<close> is the exponent of its leading bit and
  at least \<open>-126\<close> (below that the values are subnormal), and the quotient is rounded to
  an integer. Every arithmetic operation on floats gives the rounded exact result
  (IEEE 754, round to nearest). Infinities and NaN are not modelled; the quantizer
  forms no value larger in magnitude than its input.
\<close>

function bit_length :: "int \<Rightarrow> nat" where
  "bit_length n = (if n \<le> 0 then 0 else Suc (bit_length (n div 2)))"
  by pat_completeness auto
termination
  by (relation "measure nat") auto

declare bit_length.simps [simp del]

text \<open>\<open>ilog2 x\<close> is \<open>floor (log2 x)\<close> for a positive \<open>x\<close>.\<close>

definition ilog2 :: "rat \<Rightarrow> int" where
  "ilog2 x =
     (if 1 \<le> x then int (bit_length \<lfloor>x\<rfloor>) - 1 else - int (bit_length (\<lceil>1 / x\<rceil> - 1)))"

definition pow2 :: "int \<Rightarrow> rat" where
  "pow2 e = (if 0 \<le> e then 2 ^ nat e else 1 / 2 ^ nat (- e))"

definition round_even :: "rat \<Rightarrow> int" where
  "round_even x =
     (let f = \<lfloor>x\<rfloor>; d = x - of_int f
      in if d < 1 / 2 then f else if 1 / 2 < d then f + 1 else if even f then f else f + 1)"

definition fl32 :: "rat \<Rightarrow> rat" where
  "fl32 x =
     (if x = 0 then 0
      else (let e = max (ilog2 \<bar>x\<bar>) (- 126);
                q = pow2 (e - 23)
            in of_int (round_even (x / q)) * q))"

text \<open>\<open>std::round\<close>: the nearest integer, halfway cases away from zero.\<close>

definition round_away :: "rat \<Rightarrow> int" where
  "round_away x = (if 0 \<le> x then \<lfloor>x + 1 / 2\<rfloor> else - \<lfloor>- x + 1 / 2\<rfloor>)"

section \<open>Transform and quantizer (transform/dct2d.cpp, quant/quantizer.cpp)\<close>

text \<open>
  The floating-point arithmetic of the DCT (sums of products with \<open>std::cos\<close> values) is
  not modelled: it is a parameter, which gives the value each transform computes for
  one output element:
  \<^item> \<open>dct_value blocks_in i\<close>: coefficient \<open>i\<close> of \<open>dct2d_blocks\<close>, a \<open>float\<close>;
  \<^item> \<open>idct_value coeff_in i\<close>: sample \<open>i\<close> of \<open>idct2d_blocks\<close>, an \<open>int32_t\<close>.
  The size checks and the sizes of the outputs are the code's. Every theorem below
  holds for all values of the parameter.
\<close>

record float_ops =
  dct_value :: "int list \<Rightarrow> nat \<Rightarrow> rat"
  idct_value :: "rat list \<Rightarrow> nat \<Rightarrow> int"

definition dct2d_blocks :: "float_ops \<Rightarrow> int list \<Rightarrow> int \<Rightarrow> error + rat list" where
  "dct2d_blocks ops blocks_in bs =
     (if bs \<noteq> 8 \<and> bs \<noteq> 16
      then Inl (runtime_error ''dct2d_blocks: block_size must be 8 or 16'')
      else if length blocks_in mod nat (bs * bs) \<noteq> 0
      then Inl (runtime_error ''dct2d_blocks: input size not multiple of block'')
      else Inr (map (dct_value ops blocks_in) [0..<length blocks_in]))"

definition idct2d_blocks :: "float_ops \<Rightarrow> rat list \<Rightarrow> int \<Rightarrow> error + int list" where
  "idct2d_blocks ops coeff_in bs =
     (if bs \<noteq> 8 \<and> bs \<noteq> 16
      then Inl (runtime_error ''idct2d_blocks: block_size must be 8 or 16'')
      else if length coeff_in mod nat (bs * bs) \<noteq> 0
      then Inl (runtime_error ''idct2d_blocks: input size not multiple of block'')
      else Inr (map (idct_value ops coeff_in) [0..<length coeff_in]))"

text \<open>\<open>quant_step_from_quality\<close>; the difference \<open>101 - quality\<close> is an \<open>int\<close>.\<close>

definition quant_step_from_quality :: "int \<Rightarrow> int" where
  "quant_step_from_quality quality =
     (let q = int32 (101 - quality);
          q = (if q < 1 then 1 else q);
          q = (if 100 < q then 100 else q)
      in q)"

text \<open>
  The body of the loop of \<open>quantize\<close> for one coefficient: the product with \<open>inv_step\<close>
  in \<open>float\<close>, \<open>std::round\<close> (whose result, an integer, is a float), the conversion to
  \<open>int\<close>, which is undefined when the value is not an \<open>int\<close>, the two clamps and the
  cast to \<open>int16_t\<close>.
\<close>

definition quant_elem :: "rat \<Rightarrow> rat \<Rightarrow> error + 16 word" where
  "quant_elem c inv_step =
     (let v = fl32 (c * inv_step);
          q = round_away v
      in if q < - 2147483648 \<or> 2147483647 < q
         then Inl (undefined_behaviour ''quantize: float to int conversion out of range'')
         else (let q = (if 32767 < q then 32767 else q);
                   q = (if q < - 32768 then - 32768 else q)
               in Inr (word_of_int q)))"

fun quantize_loop :: "rat list \<Rightarrow> rat \<Rightarrow> error + 16 word list" where
  "quantize_loop [] inv_step = Inr []"
| "quantize_loop (c # cs) inv_step =
     ebind (quant_elem c inv_step) (\<lambda>q.
     ebind (quantize_loop cs inv_step) (\<lambda>qs. Inr (q # qs)))"

text \<open>\<open>quantize\<close>, with \<open>inv_step = 1.0f / static_cast<float>(step)\<close>.\<close>

definition quantize :: "rat list \<Rightarrow> int \<Rightarrow> int \<Rightarrow> error + 16 word list" where
  "quantize coeff_in bs quality =
     (if bs \<noteq> 8 \<and> bs \<noteq> 16
      then Inl (runtime_error ''quantize: block_size must be 8 or 16'')
      else if length coeff_in mod nat (bs * bs) \<noteq> 0
      then Inl (runtime_error ''quantize: coeff size not multiple of block'')
      else (let step = quant_step_from_quality quality;
                inv_step = fl32 (1 / fl32 (of_int step))
            in quantize_loop coeff_in inv_step))"

text \<open>\<open>dequantize\<close>: \<open>static_cast<float>(q) * static_cast<float>(step)\<close> for every element.\<close>

definition dequantize :: "16 word list \<Rightarrow> int \<Rightarrow> int \<Rightarrow> error + rat list" where
  "dequantize qcoeff_in bs quality =
     (if bs \<noteq> 8 \<and> bs \<noteq> 16
      then Inl (runtime_error ''dequantize: block_size must be 8 or 16'')
      else if length qcoeff_in mod nat (bs * bs) \<noteq> 0
      then Inl (runtime_error ''dequantize: qcoeff size not multiple of block'')
      else (let step = quant_step_from_quality quality
            in Inr (map (\<lambda>q. fl32 (fl32 (of_int (sint q)) * fl32 (of_int step))) qcoeff_in)))"

section \<open>Byte stream (entropy/bitstream.hpp)\<close>

text \<open>\<open>ByteWriter\<close>: the buffer, and the writes that append to it.\<close>

definition write_u8 :: "8 word list \<Rightarrow> 8 word \<Rightarrow> 8 word list" where
  "write_u8 buf v = buf @ [v]"

definition write_u16_le :: "8 word list \<Rightarrow> 16 word \<Rightarrow> 8 word list" where
  "write_u16_le buf v = buf @ [ucast (v AND 0xFF), ucast (drop_bit 8 v AND 0xFF)]"

definition write_u32_le :: "8 word list \<Rightarrow> 32 word \<Rightarrow> 8 word list" where
  "write_u32_le buf v =
     write_u16_le (write_u16_le buf (ucast (v AND 0xFFFF))) (ucast (drop_bit 16 v AND 0xFFFF))"

definition write_bytes :: "8 word list \<Rightarrow> 8 word list \<Rightarrow> 8 word list" where
  "write_bytes buf bs = buf @ bs"

text \<open>
  \<open>ByteReader\<close>: the state is the part of the buffer from \<open>pos_\<close> on; \<open>need(n)\<close> fails
  when fewer than \<open>n\<close> bytes are left.
\<close>

definition read_u8 :: "8 word list \<Rightarrow> error + (8 word \<times> 8 word list)" where
  "read_u8 r =
     (case r of
        [] \<Rightarrow> Inl (runtime_error ''bitstream: premature EOF'')
      | b # r' \<Rightarrow> Inr (b, r'))"

definition read_u16_le :: "8 word list \<Rightarrow> error + (16 word \<times> 8 word list)" where
  "read_u16_le r =
     ebind (read_u8 r) (\<lambda>(lo, r1).
     ebind (read_u8 r1) (\<lambda>(hi, r2).
     Inr ((ucast lo :: 16 word) OR push_bit 8 (ucast hi), r2)))"

definition read_u32_le :: "8 word list \<Rightarrow> error + (32 word \<times> 8 word list)" where
  "read_u32_le r =
     ebind (read_u16_le r) (\<lambda>(a, r1).
     ebind (read_u16_le r1) (\<lambda>(b, r2).
     Inr ((ucast a :: 32 word) OR push_bit 16 (ucast b), r2)))"

definition read_bytes :: "8 word list \<Rightarrow> nat \<Rightarrow> error + (8 word list \<times> 8 word list)" where
  "read_bytes r n =
     (if length r < n then Inl (runtime_error ''bitstream: premature EOF'')
      else Inr (take n r, drop n r))"

section \<open>Container header (format/mcodec_format.hpp, entropy/bitstream.cpp)\<close>

definition kMCodecHeaderBytes :: "16 word" where
  "kMCodecHeaderBytes = 32"

record MCodecHeader =
  hdr_magic :: "8 word list"
  hdr_version :: "16 word"
  hdr_header_bytes :: "16 word"
  hdr_width :: "32 word"
  hdr_height :: "32 word"
  hdr_channels :: "16 word"
  hdr_bits_allocated :: "16 word"
  hdr_bits_stored :: "16 word"
  hdr_is_signed :: "8 word"
  hdr_flags :: "8 word"
  hdr_block_size :: "16 word"
  hdr_quality :: "16 word"
  hdr_payload_bytes :: "32 word"

text \<open>
  \<open>write_bitstream_header\<close>: the header is built from the image it is given (the
  casts of the \<open>int\<close> fields are \<open>word_of_int\<close>) and written field by field.
  The magic is the ASCII of \<open>MCDC\<close>.
\<close>

definition write_bitstream_header ::
  "8 word list \<Rightarrow> Image \<Rightarrow> 8 word \<Rightarrow> 16 word \<Rightarrow> 16 word \<Rightarrow> 8 word list" where
  "write_bitstream_header w im flags bs quality =
     (let hdr = \<lparr>hdr_magic = [0x4D, 0x43, 0x44, 0x43],
                 hdr_version = 1,
                 hdr_header_bytes = kMCodecHeaderBytes,
                 hdr_width = word_of_int (width im),
                 hdr_height = word_of_int (height im),
                 hdr_channels = word_of_int (channels im),
                 hdr_bits_allocated = word_of_int (bits_allocated im),
                 hdr_bits_stored = word_of_int (bits_stored im),
                 hdr_is_signed = (if is_signed im then 1 else 0),
                 hdr_flags = flags,
                 hdr_block_size = bs,
                 hdr_quality = quality,
                 hdr_payload_bytes = 0\<rparr>;
          w = write_bytes w (hdr_magic hdr);
          w = write_u16_le w (hdr_version hdr);
          w = write_u16_le w (hdr_header_bytes hdr);
          w = write_u32_le w (hdr_width hdr);
          w = write_u32_le w (hdr_height hdr);
          w = write_u16_le w (hdr_channels hdr);
          w = write_u16_le w (hdr_bits_allocated hdr);
          w = write_u16_le w (hdr_bits_stored hdr);
          w = write_u8 w (hdr_is_signed hdr);
          w = write_u8 w (hdr_flags hdr);
          w = write_u16_le w (hdr_block_size hdr);
          w = write_u16_le w (hdr_quality hdr);
          w = write_u32_le w (hdr_payload_bytes hdr)
      in w)"

definition read_u16_le_at :: "8 word list \<Rightarrow> nat \<Rightarrow> error + 16 word" where
  "read_u16_le_at b off =
     (if length b < off + 2 then Inl (runtime_error ''bitstream: premature EOF (u16)'')
      else Inr ((ucast (b ! off) :: 16 word) OR push_bit 8 (ucast (b ! (off + 1)))))"

definition read_u32_le_at :: "8 word list \<Rightarrow> nat \<Rightarrow> error + 32 word" where
  "read_u32_le_at b off =
     (if length b < off + 4 then Inl (runtime_error ''bitstream: premature EOF (u32)'')
      else Inr ((ucast (b ! off) :: 32 word)
                OR push_bit 8 (ucast (b ! (off + 1)))
                OR push_bit 16 (ucast (b ! (off + 2)))
                OR push_bit 24 (ucast (b ! (off + 3)))))"

definition read_bitstream_header :: "8 word list \<Rightarrow> error + MCodecHeader" where
  "read_bitstream_header bytes =
     (if length bytes < unat kMCodecHeaderBytes then Inl (runtime_error ''decode: file too small'')
      else
        ebind (read_u16_le_at bytes 4) (\<lambda>version.
        ebind (read_u16_le_at bytes 6) (\<lambda>header_bytes.
        ebind (read_u32_le_at bytes 8) (\<lambda>w.
        ebind (read_u32_le_at bytes 12) (\<lambda>h.
        ebind (read_u16_le_at bytes 16) (\<lambda>ch.
        ebind (read_u16_le_at bytes 18) (\<lambda>ba.
        ebind (read_u16_le_at bytes 20) (\<lambda>bst.
        ebind (read_u16_le_at bytes 24) (\<lambda>bs.
        ebind (read_u16_le_at bytes 26) (\<lambda>quality.
        ebind (read_u32_le_at bytes 28) (\<lambda>payload_bytes.
          (let hdr = \<lparr>hdr_magic = take 4 bytes,
                      hdr_version = version,
                      hdr_header_bytes = header_bytes,
                      hdr_width = w,
                      hdr_height = h,
                      hdr_channels = ch,
                      hdr_bits_allocated = ba,
                      hdr_bits_stored = bst,
                      hdr_is_signed = bytes ! 22,
                      hdr_flags = bytes ! 23,
                      hdr_block_size = bs,
                      hdr_quality = quality,
                      hdr_payload_bytes = payload_bytes\<rparr>
           in if hdr_magic hdr \<noteq> [0x4D, 0x43, 0x44, 0x43]
              then Inl (runtime_error ''decode: bad magic'')
              else if hdr_version hdr \<noteq> 1
              then Inl (runtime_error ''decode: unsupported version'')
              else if hdr_header_bytes hdr < kMCodecHeaderBytes
              then Inl (runtime_error ''decode: invalid header_bytes'')
              else if length bytes < unat (hdr_header_bytes hdr)
              then Inl (runtime_error ''decode: truncated header'')
              else Inr hdr))))))))))))"

section \<open>Bit stream (entropy/huffman.cpp)\<close>

text \<open>
  \<open>BitWriter\<close>: the bytes written, the byte being filled and the number of bits in
  it. \<open>write_bit\<close> is the body of the loop of \<open>write_bits\<close> for one bit, and
  \<open>write_bits_loop w code n\<close> runs it for \<open>i = n - 1\<close> down to \<open>0\<close>.
\<close>

record BitWriter =
  bw_data :: "8 word list"
  bw_cur :: "8 word"
  bw_bit_pos :: nat

definition new_bit_writer :: BitWriter where
  "new_bit_writer = \<lparr>bw_data = [], bw_cur = 0, bw_bit_pos = 0\<rparr>"

definition write_bit :: "BitWriter \<Rightarrow> 8 word \<Rightarrow> BitWriter" where
  "write_bit w b =
     (let cur = push_bit 1 (bw_cur w) OR b;
          pos = bw_bit_pos w + 1
      in if pos = 8 then \<lparr>bw_data = bw_data w @ [cur], bw_cur = 0, bw_bit_pos = 0\<rparr>
         else \<lparr>bw_data = bw_data w, bw_cur = cur, bw_bit_pos = pos\<rparr>)"

fun write_bits_loop :: "BitWriter \<Rightarrow> 32 word \<Rightarrow> nat \<Rightarrow> BitWriter" where
  "write_bits_loop w code 0 = w"
| "write_bits_loop w code (Suc i) =
     write_bits_loop (write_bit w (ucast (drop_bit i code AND 1))) code i"

definition write_bits :: "BitWriter \<Rightarrow> 32 word \<Rightarrow> 8 word \<Rightarrow> error + BitWriter" where
  "write_bits w code bit_len =
     (if bit_len = 0 \<or> 32 < bit_len then Inl (runtime_error ''BitWriter: invalid bit length'')
      else Inr (write_bits_loop w code (unat bit_len)))"

definition flush :: "BitWriter \<Rightarrow> BitWriter" where
  "flush w =
     (if 0 < bw_bit_pos w
      then \<lparr>bw_data = bw_data w @ [push_bit (8 - bw_bit_pos w) (bw_cur w)],
            bw_cur = 0, bw_bit_pos = 0\<rparr>
      else w)"

text \<open>
  \<open>BitReader\<close>: the buffer, the index of the current byte and the bit position in it.
  The position is below 8 in every reader the code builds; on any other the shift
  \<open>byte >> (7 - bit_pos_)\<close> has a negative count.
\<close>

record BitReader =
  br_data :: "8 word list"
  br_byte_idx :: nat
  br_bit_pos :: nat

definition new_bit_reader :: "8 word list \<Rightarrow> BitReader" where
  "new_bit_reader buf = \<lparr>br_data = buf, br_byte_idx = 0, br_bit_pos = 0\<rparr>"

definition read_bit :: "BitReader \<Rightarrow> error + (bool \<times> BitReader)" where
  "read_bit r =
     (if length (br_data r) \<le> br_byte_idx r then Inl (runtime_error ''BitReader: out of data'')
      else if 7 < br_bit_pos r then Inl (undefined_behaviour ''BitReader: negative shift count'')
      else (let byte = br_data r ! br_byte_idx r;
                b = drop_bit (7 - br_bit_pos r) byte AND 1;
                pos = br_bit_pos r + 1
            in Inr (b \<noteq> 0,
                    if pos = 8 then r\<lparr>br_bit_pos := 0, br_byte_idx := br_byte_idx r + 1\<rparr>
                    else r\<lparr>br_bit_pos := pos\<rparr>)))"

section \<open>Canonical Huffman coding (entropy/huffman.hpp, entropy/huffman.cpp)\<close>

text \<open>
  \<open>struct HuffTable\<close>. The vector \<open>enc\<close>, indexed by symbol, can have up to \<open>2^32\<close>
  entries, nearly all of them the default entry: it is kept as its size and the function
  from index to entry. The decode trie \<open>decode_nodes\<close> is the vector of nodes, linked
  by indices, \<open>-1\<close> for no child and for no symbol.
\<close>

record EncEntry =
  enc_code :: "32 word"
  enc_len :: "8 word"
  enc_valid :: bool

record Node =
  node_left :: int
  node_right :: int
  node_symbol :: int

record HuffTable =
  enc_size :: nat
  enc :: "nat \<Rightarrow> EncEntry"
  decode_nodes :: "Node list"

definition default_entry :: EncEntry where
  "default_entry = \<lparr>enc_code = 0, enc_len = 0, enc_valid = False\<rparr>"

definition new_node :: Node where
  "new_node = \<lparr>node_left = - 1, node_right = - 1, node_symbol = - 1\<rparr>"

text \<open>
  A loop \<open>for (uint32_t i = ...; i < n; ++i)\<close> whose bound \<open>n\<close> is a \<open>size_t\<close> (64 bits):
  the counter wraps around at \<open>2^32\<close>, so the loop does not end when \<open>n\<close> is \<open>2^32\<close>.
  \<open>None\<close> is the loop that never ends.
\<close>

partial_function (option) u32_for :: "nat \<Rightarrow> (32 word \<Rightarrow> 's \<Rightarrow> 's) \<Rightarrow> 32 word \<Rightarrow> 's \<Rightarrow> 's option" where
  "u32_for n body i s = (if unat i < n then u32_for n body (i + 1) (body i s) else Some s)"

subsection \<open>Frequencies\<close>

text \<open>
  \<open>build_symbol_frequencies\<close>. The hash map is an association list with one entry per
  key; \<open>count_symbol\<close> is the body of the loop (insert with count 1, or throw at the
  maximum, or increment). The entries are then sorted by symbol; their keys are
  distinct, so the order in which the map lists them does not matter.
\<close>

fun count_symbol :: "32 word \<Rightarrow> (32 word \<times> 32 word) list \<Rightarrow> error + (32 word \<times> 32 word) list" where
  "count_symbol s [] = Inr [(s, 1)]"
| "count_symbol s ((k, c) # m) =
     (if k = s
      then (if c = 0xFFFFFFFF then Inl (runtime_error ''huffman: frequency overflow'')
            else Inr ((k, c + 1) # m))
      else ebind (count_symbol s m) (\<lambda>m'. Inr ((k, c) # m')))"

fun count_symbols :: "32 word list \<Rightarrow> (32 word \<times> 32 word) list \<Rightarrow> error + (32 word \<times> 32 word) list" where
  "count_symbols [] m = Inr m"
| "count_symbols (s # ss) m = ebind (count_symbol s m) (count_symbols ss)"

definition build_symbol_frequencies :: "32 word list \<Rightarrow> error + (32 word \<times> 32 word) list" where
  "build_symbol_frequencies symbols =
     ebind (count_symbols symbols []) (\<lambda>m. Inr (sort_key fst m))"

subsection \<open>The Huffman tree\<close>

text \<open>
  \<open>struct HeapNode { freq; symbol; left; right; }\<close>. The children are indices into the
  vector \<open>nodes\<close>, to which nodes are only ever appended; an index stands for the
  subtree stored there, and the model keeps that subtree in its place. A leaf is a node
  with \<open>left = right = -1\<close>.
\<close>

datatype HeapNode =
    HeapLeaf (hn_freq: "32 word") (hn_symbol: "32 word")
  | HeapInner (hn_freq: "32 word") (hn_symbol: "32 word") (hn_left: HeapNode) (hn_right: HeapNode)

text \<open>\<open>HeapComp\<close>: \<open>a\<close> comes after \<open>b\<close> (greater frequency, then greater symbol).\<close>

definition heap_comp :: "HeapNode \<Rightarrow> HeapNode \<Rightarrow> bool" where
  "heap_comp a b =
     (if hn_freq a \<noteq> hn_freq b then hn_freq b < hn_freq a else hn_symbol b < hn_symbol a)"

text \<open>
  The priority queue is the list of its elements; \<open>top\<close> is the element that comes
  after no other (no two elements of the queue compare equal: their subtrees are
  disjoint and so are their smallest symbols), \<open>pop\<close> removes it.
\<close>

fun pq_best :: "HeapNode \<Rightarrow> HeapNode list \<Rightarrow> HeapNode" where
  "pq_best a [] = a"
| "pq_best a (b # bs) = pq_best (if heap_comp a b then b else a) bs"

definition pq_top :: "HeapNode list \<Rightarrow> HeapNode" where
  "pq_top pq = pq_best (hd pq) (tl pq)"

definition pq_pop :: "HeapNode list \<Rightarrow> HeapNode list" where
  "pq_pop pq = remove1 (pq_top pq) pq"

lemma pq_best_in_set: "pq_best a bs \<in> set (a # bs)"
  by (induction bs arbitrary: a) auto

lemma length_pq_pop: "pq \<noteq> [] \<Longrightarrow> length (pq_pop pq) = length pq - 1"
  using pq_best_in_set [of "hd pq" "tl pq"]
  by (simp add: pq_pop_def pq_top_def length_remove1)

text \<open>
  The loop \<open>while (pq.size() > 1)\<close>: the two best nodes are popped and stored, their
  parent is pushed. The frequencies are added as \<open>uint32_t\<close>.
\<close>

function merge_loop :: "HeapNode list \<Rightarrow> HeapNode list" where
  "merge_loop pq =
     (if 1 < length pq
      then (let a = pq_top pq;
                pq1 = pq_pop pq;
                b = pq_top pq1;
                pq2 = pq_pop pq1;
                parent = HeapInner (hn_freq a + hn_freq b) (min (hn_symbol a) (hn_symbol b)) a b
            in merge_loop (pq2 @ [parent]))
      else pq)"
  by pat_completeness auto
termination
proof (relation "measure length")
  show "wf (measure length)" by simp
next
  fix pq :: "HeapNode list" and a pq1 b pq2 parent
  assume big: "1 < length pq" and pq1: "pq1 = pq_pop pq" and pq2: "pq2 = pq_pop pq1"
  from big have "pq \<noteq> []" by auto
  then have l1: "length pq1 = length pq - 1"
    unfolding pq1 by (rule length_pq_pop)
  with big have "pq1 \<noteq> []" by auto
  then have "length pq2 = length pq1 - 1"
    unfolding pq2 by (rule length_pq_pop)
  then show "(pq2 @ [parent], pq) \<in> measure length"
    using big l1 by simp
qed

text \<open>
  The depth-first walk with its explicit stack of (node, depth): a leaf adds its
  \<open>(symbol, depth)\<close> to \<open>lens\<close>; an inner node at depth 32 or more throws; otherwise the
  right child and then the left child are pushed, so the left one is popped first.
\<close>

fun hn_count :: "HeapNode \<Rightarrow> nat" where
  "hn_count (HeapLeaf f s) = 1"
| "hn_count (HeapInner f s l r) = 1 + hn_count l + hn_count r"

function dfs_lens ::
  "(HeapNode \<times> 8 word) list \<Rightarrow> (32 word \<times> 8 word) list \<Rightarrow> error + (32 word \<times> 8 word) list" where
  "dfs_lens [] lens = Inr lens"
| "dfs_lens ((HeapLeaf f s, depth) # stack) lens = dfs_lens stack (lens @ [(s, depth)])"
| "dfs_lens ((HeapInner f s l r, depth) # stack) lens =
     (if 32 \<le> depth then Inl (runtime_error ''huffman: code length exceeds 32'')
      else dfs_lens ((l, depth + 1) # (r, depth + 1) # stack) lens)"
  by pat_completeness auto
termination
  by (relation "measure (\<lambda>(stack, lens). sum_list (map (\<lambda>(n, d). hn_count n) stack))") auto

subsection \<open>Canonical codes and the table\<close>

text \<open>
  The canonical assignment over the entries sorted by (length, symbol): the code is
  shifted left when the length grows, given to the entry, and incremented. All of it
  is \<open>uint32_t\<close> arithmetic. (The lengths are sorted, so \<open>len - prev_len\<close> is not
  negative.)
\<close>

fun assign_codes ::
  "(32 word \<times> 8 word) list \<Rightarrow> 32 word \<Rightarrow> 8 word \<Rightarrow> (32 word \<times> 32 word \<times> 8 word) list" where
  "assign_codes [] code prev_len = []"
| "assign_codes ((s, len) # rest) code prev_len =
     (let code = (if len \<noteq> prev_len then push_bit (unat len - unat prev_len) code else code)
      in (s, code, len) # assign_codes rest (code + 1) len)"

definition canonical_codes :: "(32 word \<times> 8 word) list \<Rightarrow> (32 word \<times> 32 word \<times> 8 word) list" where
  "canonical_codes lens =
     (let prev_len = snd (hd lens);
          code = push_bit (unat prev_len) (0 :: 32 word)
      in assign_codes lens code prev_len)"

text \<open>
  The insertion of one code into the decode trie: \<open>insert_walk\<close> is the loop over the
  bits of the code, most significant first, which follows the child for each bit and
  appends a new node (linking it from its parent) where there is none.
\<close>

fun insert_walk :: "Node list \<Rightarrow> int \<Rightarrow> 32 word \<Rightarrow> nat \<Rightarrow> Node list \<times> int" where
  "insert_walk nodes node_idx code 0 = (nodes, node_idx)"
| "insert_walk nodes node_idx code (Suc i) =
     (let b = drop_bit i code AND 1;
          nd = nodes ! nat node_idx;
          next = (if b = 0 then node_left nd else node_right nd)
      in if next = - 1
         then (let next = int (length nodes);
                   nodes = nodes @ [new_node];
                   nodes = nodes[nat node_idx :=
                             (if b = 0 then (nodes ! nat node_idx)\<lparr>node_left := next\<rparr>
                              else (nodes ! nat node_idx)\<lparr>node_right := next\<rparr>)]
               in insert_walk nodes next code i)
         else insert_walk nodes next code i)"

definition trie_insert ::
  "string \<Rightarrow> Node list \<Rightarrow> 32 word \<times> 32 word \<times> 8 word \<Rightarrow> error + Node list" where
  "trie_insert msg nodes ce =
     (case ce of (s, code, len) \<Rightarrow>
        (let (nodes, node_idx) = insert_walk nodes 0 code (unat len)
         in if node_symbol (nodes ! nat node_idx) \<noteq> - 1 then Inl (runtime_error msg)
            else Inr (nodes[nat node_idx := (nodes ! nat node_idx)\<lparr>node_symbol := sint s\<rparr>])))"

text \<open>
  The table loop of \<open>build_canonical_table\<close>. The resize of \<open>enc\<close> is never taken there:
  \<open>enc\<close> already has \<open>max_sym + 1\<close> entries.
\<close>

fun build_table_entries ::
  "HuffTable \<Rightarrow> (32 word \<times> 32 word \<times> 8 word) list \<Rightarrow> error + HuffTable" where
  "build_table_entries t [] = Inr t"
| "build_table_entries t ((s, code, len) # rest) =
     (let t = (if enc_size t \<le> unat s then t\<lparr>enc_size := unat (s + 1)\<rparr> else t);
          t = t\<lparr>enc := (enc t)(unat s := \<lparr>enc_code = code, enc_len = len, enc_valid = True\<rparr>)\<rparr>
      in ebind (trie_insert ''huffman: duplicate code assignment'' (decode_nodes t) (s, code, len))
           (\<lambda>nodes. build_table_entries (t\<lparr>decode_nodes := nodes\<rparr>) rest))"

text \<open>The dense frequency table \<open>freqs\<close>, filled with the 64-bit overflow check.\<close>

fun accumulate_freqs ::
  "(32 word \<times> 32 word) list \<Rightarrow> (nat \<Rightarrow> 32 word) \<Rightarrow> error + (nat \<Rightarrow> 32 word)" where
  "accumulate_freqs [] freqs = Inr freqs"
| "accumulate_freqs ((s, f) # rest) freqs =
     (if f = 0 then accumulate_freqs rest freqs
      else (let sum = unat (freqs (unat s)) + unat f
            in if 0xFFFFFFFF < sum then Inl (runtime_error ''huffman: frequency overflow'')
               else accumulate_freqs rest (freqs(unat s := of_nat sum))))"

definition single_symbol_table :: "nat \<Rightarrow> 32 word \<Rightarrow> HuffTable" where
  "single_symbol_table n s =
     (let nodes = [new_node];
          nodes = nodes @ [\<lparr>node_left = - 1, node_right = - 1, node_symbol = sint s\<rparr>];
          nodes = nodes[0 := (nodes ! 0)\<lparr>node_left := 1\<rparr>]
      in \<lparr>enc_size = n,
          enc = (\<lambda>i. default_entry)(unat s := \<lparr>enc_code = 0, enc_len = 1, enc_valid = True\<rparr>),
          decode_nodes = nodes\<rparr>)"

text \<open>
  \<open>build_canonical_table\<close>. \<open>None\<close>: the function does not return (the leaf loop runs
  over a \<open>uint32_t\<close> counter up to \<open>freqs.size()\<close>, which is \<open>2^32\<close> when the largest
  symbol is \<open>0xFFFFFFFF\<close>; \<open>size_t\<close> has 64 bits).
\<close>

definition build_canonical_table :: "(32 word \<times> 32 word) list \<Rightarrow> (error + HuffTable) option" where
  "build_canonical_table sym_freq =
     (if sym_freq = [] then Some (Inl (runtime_error ''huffman: empty symbol-frequency list''))
      else (let max_sym = fold (\<lambda>(s, f) m. if f = 0 then m else if m < s then s else m) sym_freq 0;
                has_nonzero = list_ex (\<lambda>(s, f). f \<noteq> 0) sym_freq
            in if \<not> has_nonzero then Some (Inl (runtime_error ''huffman: all frequencies are zero''))
               else (case accumulate_freqs sym_freq (\<lambda>i. 0) of
                       Inl e \<Rightarrow> Some (Inl e)
                     | Inr freqs \<Rightarrow>
                         (case u32_for (unat max_sym + 1)
                                 (\<lambda>i pq. if freqs (unat i) = 0 then pq
                                          else pq @ [HeapLeaf (freqs (unat i)) i]) 0 [] of
                            None \<Rightarrow> None
                          | Some pq \<Rightarrow>
                              if length pq = 1
                              then Some (Inr (single_symbol_table (unat max_sym + 1) (hn_symbol (pq_top pq))))
                              else (let root = pq_top (merge_loop pq)
                                    in Some (ebind (dfs_lens [(root, 0)] []) (\<lambda>lens.
                                         (let lens = sort_key (\<lambda>(s, l). (l, s)) lens;
                                              canon = canonical_codes lens;
                                              t = \<lparr>enc_size = unat max_sym + 1,
                                                   enc = (\<lambda>i. default_entry),
                                                   decode_nodes = [new_node]\<rparr>
                                          in build_table_entries t canon))))))))"

text \<open>
  \<open>build_table_from_code_lengths\<close>. Here \<open>enc\<close> gets \<open>max_sym + 1\<close> entries with the sum
  taken in \<open>uint32_t\<close>; when it wraps to 0, the write to \<open>enc[symbol]\<close> is outside the
  vector.
\<close>

fun from_lengths_entries ::
  "HuffTable \<Rightarrow> (32 word \<times> 32 word \<times> 8 word) list \<Rightarrow> error + HuffTable" where
  "from_lengths_entries t [] = Inr t"
| "from_lengths_entries t ((s, code, len) # rest) =
     (if enc_size t \<le> unat s then Inl (undefined_behaviour ''enc: index out of range'')
      else (let t = t\<lparr>enc := (enc t)(unat s := \<lparr>enc_code = code, enc_len = len, enc_valid = True\<rparr>)\<rparr>
            in ebind (trie_insert ''decode: duplicate code assignment'' (decode_nodes t) (s, code, len))
                 (\<lambda>nodes. from_lengths_entries (t\<lparr>decode_nodes := nodes\<rparr>) rest)))"

definition build_table_from_code_lengths :: "(32 word \<times> 8 word) list \<Rightarrow> error + HuffTable" where
  "build_table_from_code_lengths entries =
     (if entries = [] then Inl (runtime_error ''decode: empty Huffman table entries'')
      else if list_ex (\<lambda>(s, l). l = 0 \<or> 32 < l) entries
      then Inl (runtime_error ''decode: invalid code length'')
      else (let lens = sort_key (\<lambda>(s, l). (l, s)) entries;
                canon = canonical_codes lens;
                max_sym = fold (\<lambda>(s, c, l) m. max m s) canon 0;
                t = \<lparr>enc_size = unat (max_sym + 1),
                     enc = (\<lambda>i. default_entry),
                     decode_nodes = [new_node]\<rparr>
            in from_lengths_entries t canon))"

subsection \<open>Encoding and decoding\<close>

fun encode_symbols :: "HuffTable \<Rightarrow> 32 word list \<Rightarrow> BitWriter \<Rightarrow> error + BitWriter" where
  "encode_symbols t [] bw = Inr bw"
| "encode_symbols t (s # ss) bw =
     (if enc_size t \<le> unat s \<or> \<not> enc_valid (enc t (unat s))
      then Inl (runtime_error ''huffman encode: symbol not in table'')
      else ebind (write_bits bw (enc_code (enc t (unat s))) (enc_len (enc t (unat s))))
             (encode_symbols t ss))"

definition huff_encode :: "32 word list \<Rightarrow> (error + HuffTable \<times> 8 word list) option" where
  "huff_encode symbols =
     (if symbols = [] then Some (Inl (runtime_error ''huffman encode: empty symbols''))
      else (case build_symbol_frequencies symbols of
              Inl e \<Rightarrow> Some (Inl e)
            | Inr freqs \<Rightarrow>
                (case build_canonical_table freqs of
                   None \<Rightarrow> None
                 | Some (Inl e) \<Rightarrow> Some (Inl e)
                 | Some (Inr t) \<Rightarrow>
                     Some (ebind (encode_symbols t symbols new_bit_writer)
                             (\<lambda>bw. Inr (t, bw_data (flush bw)))))))"

text \<open>
  The inner loop of \<open>huff_decode\<close> for one symbol: from node \<open>node\<close>, stop at a node
  that has a symbol, otherwise read a bit and follow the child. Every round reads a
  bit, so the loop ends with the buffer at the latest.
\<close>

function decode_symbol :: "Node list \<Rightarrow> int \<Rightarrow> BitReader \<Rightarrow> error + (32 word \<times> BitReader)" where
  "decode_symbol nodes node br =
     (if node < 0 \<or> int (length nodes) \<le> node
      then Inl (runtime_error ''huffman decode: invalid node'')
      else (let nd = nodes ! nat node
            in if node_symbol nd \<noteq> - 1 then Inr (word_of_int (node_symbol nd), br)
               else (case read_bit br of
                       Inl e \<Rightarrow> Inl e
                     | Inr (b, br') \<Rightarrow>
                         (let node' = (if b then node_right nd else node_left nd)
                          in if node' = - 1
                             then Inl (runtime_error ''huffman decode: reached null child'')
                             else decode_symbol nodes node' br'))))"
  by pat_completeness auto
termination
proof (relation "measure (\<lambda>(nodes, node, br).
          8 * (length (br_data br) - br_byte_idx br) - br_bit_pos br)")
  show "wf (measure (\<lambda>(nodes, node, br).
          8 * (length (br_data br) - br_byte_idx br) - br_bit_pos br))" by simp
next
  fix nodes :: "Node list" and node :: int and br br' :: BitReader and nd x2 b node'
  assume "read_bit br = Inr x2" and "(b, br') = x2"
  then have "read_bit br = Inr (b, br')" by simp
  then show "((nodes, node', br'), (nodes, node, br)) \<in> measure (\<lambda>(nodes, node, br).
          8 * (length (br_data br) - br_byte_idx br) - br_bit_pos br)"
    by (auto simp: read_bit_def Let_def split: if_splits)
qed

fun decode_symbols ::
  "Node list \<Rightarrow> nat \<Rightarrow> BitReader \<Rightarrow> 32 word list \<Rightarrow> error + 32 word list" where
  "decode_symbols nodes 0 br out = Inr out"
| "decode_symbols nodes (Suc n) br out =
     ebind (decode_symbol nodes 0 br) (\<lambda>(s, br'). decode_symbols nodes n br' (out @ [s]))"

definition huff_decode :: "8 word list \<Rightarrow> HuffTable \<Rightarrow> nat \<Rightarrow> error + 32 word list" where
  "huff_decode bits t symbol_count =
     decode_symbols (decode_nodes t) symbol_count (new_bit_reader bits) []"

section \<open>Encoder (codec/encoder.cpp)\<close>

text \<open>
  The last part of \<open>encode_to_mcodec\<close>, from \<open>Bitstream Writer\<close> on: the used symbols
  and their lengths are collected from \<open>enc\<close> (a \<open>uint32_t\<close> loop again), sorted by
  (length, symbol), and the header, the table section and the Huffman bytes are written;
  \<open>payload_bytes\<close> is then patched in at offset 28 and the size is checked. The sizes
  are \<open>uint32_t\<close> values.
\<close>

definition write_container ::
  "Image \<Rightarrow> bool \<Rightarrow> int \<Rightarrow> int \<Rightarrow> 32 word list \<Rightarrow> HuffTable \<Rightarrow> 8 word list
     \<Rightarrow> (error + 8 word list) option" where
  "write_container img level_shift_applied bs quality symbols table huff_encode_bits =
     (let flags = (if level_shift_applied then 0x01 else 0x00) :: 8 word;
          symbol_count = (of_nat (length symbols) :: 32 word)
      in case u32_for (enc_size table)
                (\<lambda>i es. if enc_valid (enc table (unat i)) \<and> 0 < enc_len (enc table (unat i))
                         then es @ [(i, enc_len (enc table (unat i)))] else es) 0 [] of
           None \<Rightarrow> None
         | Some table_entries \<Rightarrow>
             (let table_entries = sort_key (\<lambda>(s, l). (l, s)) table_entries
              in if table_entries = []
                 then Some (Inl (runtime_error ''encode: no used symbols for Huffman table''))
                 else
                   (let used_symbol_count = (of_nat (length table_entries) :: 32 word);
                        huff_table_section_bytes = 4 + 4 + used_symbol_count * (4 + 1);
                        huff_payload_bytes = (of_nat (length huff_encode_bits) :: 32 word);
                        payload_bytes = huff_table_section_bytes + huff_payload_bytes;
                        w = write_bitstream_header [] img flags (word_of_int bs) (word_of_int quality);
                        w = write_u32_le w symbol_count;
                        w = write_u32_le w used_symbol_count;
                        w = fold (\<lambda>(s, len) w. write_u8 (write_u32_le w s) len) table_entries w;
                        w = write_bytes w huff_encode_bits;
                        bytes = w
                    in if length bytes < unat kMCodecHeaderBytes
                       then Some (Inl (runtime_error
                              ''encode: header size too small when patching payload_bytes''))
                       else
                         (let bytes = bytes[28 := ucast (payload_bytes AND 0xFF)];
                              bytes = bytes[29 := ucast (drop_bit 8 payload_bytes AND 0xFF)];
                              bytes = bytes[30 := ucast (drop_bit 16 payload_bytes AND 0xFF)];
                              bytes = bytes[31 := ucast (drop_bit 24 payload_bytes AND 0xFF)];
                              expected_size = (ucast kMCodecHeaderBytes :: 32 word) + payload_bytes
                          in if length bytes \<noteq> unat expected_size
                             then Some (Inl (runtime_error
                                    ''encode: buffer size mismatch after patching payload_bytes''))
                             else Some (Inr bytes)))))"

text \<open>
  The pipeline of \<open>encode_to_mcodec\<close> up to the packed symbols. \<open>img\<close> is the working
  copy of the input; \<open>apply_level_shift\<close> changes it in place, and it is this copy that
  goes on to the tiler and, later, to \<open>write_bitstream_header\<close>.
\<close>

definition encode_symbol_stream ::
  "float_ops \<Rightarrow> Image \<Rightarrow> int \<Rightarrow> int \<Rightarrow> error + (Image \<times> 32 word list)" where
  "encode_symbol_stream ops img bs quality =
     ebind (apply_level_shift img) (\<lambda>img.
     ebind (make_grid (width img) (height img) bs) (\<lambda>grid.
     ebind (tile_to_blocks img grid) (\<lambda>blocks.
     ebind (dct2d_blocks ops blocks bs) (\<lambda>coeffs.
     ebind (quantize coeffs bs quality) (\<lambda>qcoeff.
     ebind (zigzag_scan_blocks qcoeff bs) (\<lambda>zigzag_seq.
     ebind (rle_encode_zeros zigzag_seq bs) (\<lambda>rle.
     Inr (img, pack_rle_symbols rle))))))))"

text \<open>
  \<open>encode_to_mcodec\<close>. The three checks on the image come first; the block size is
  the constant 8; \<open>level_shift_applied\<close> is read from the image before the shift. The
  size check compares \<open>static_cast<int>(pixels.size())\<close> with the \<open>int\<close> product
  \<open>width * height\<close>. The quality is not checked here. \<open>None\<close>: the call does not return.
\<close>

definition encode_to_mcodec :: "float_ops \<Rightarrow> Image \<Rightarrow> int \<Rightarrow> (error + 8 word list) option" where
  "encode_to_mcodec ops im quality =
     (let img = im
      in if channels img \<noteq> 1
         then Some (Inl (runtime_error ''encode: only grayscale is supported''))
         else if width img \<le> 0 \<or> height img \<le> 0
         then Some (Inl (runtime_error ''encode: invalid image size''))
         else if int32 (int (length (pixels img))) \<noteq> int32 (width img * height img)
         then Some (Inl (runtime_error ''encode: buffer size mismatch''))
         else
           (let bs = 8;
                level_shift_applied = \<not> is_signed img
            in case encode_symbol_stream ops img bs quality of
                 Inl e \<Rightarrow> Some (Inl e)
               | Inr (img, symbols) \<Rightarrow>
                   (case huff_encode symbols of
                      None \<Rightarrow> None
                    | Some (Inl e) \<Rightarrow> Some (Inl e)
                    | Some (Inr (table, huff_encode_bits)) \<Rightarrow>
                        write_container img level_shift_applied bs quality symbols
                          table huff_encode_bits)))"

section \<open>Decoder (codec/decoder.cpp)\<close>

text \<open>The loop that reads the \<open>used_symbol_count\<close> table entries.\<close>

fun read_entries ::
  "nat \<Rightarrow> 8 word list \<Rightarrow> (32 word \<times> 8 word) list
     \<Rightarrow> error + ((32 word \<times> 8 word) list \<times> 8 word list)" where
  "read_entries 0 r entries = Inr (entries, r)"
| "read_entries (Suc n) r entries =
     ebind (read_u32_le r) (\<lambda>(s, r1).
     ebind (read_u8 r1) (\<lambda>(len, r2).
     if len = 0 \<or> 32 < len
     then Inl (runtime_error ''decode: invalid code length in table section'')
     else read_entries n r2 (entries @ [(s, len)])))"

text \<open>
  The last part of \<open>decode_from_mcodec\<close>, from \<open>Untile\<close> on: the image is built from
  the header, filled from the padded raster, and shifted back when flag bit 0 is set.
\<close>

definition decode_image :: "MCodecHeader \<Rightarrow> BlockGrid \<Rightarrow> int list \<Rightarrow> error + Image" where
  "decode_image hdr grid blocks =
     (let is_sgn = (hdr_is_signed hdr \<noteq> 0);
          ba = uint (hdr_bits_allocated hdr);
          im = \<lparr>width = sint (hdr_width hdr),
                height = sint (hdr_height hdr),
                channels = uint (hdr_channels hdr),
                bits_stored = uint (hdr_bits_stored hdr),
                bits_allocated = ba,
                is_signed = is_sgn,
                pixel_type = (if is_sgn then S16 else if ba \<le> 8 then U8 else U16),
                pixels = []\<rparr>;
          level_shift_applied = (hdr_flags hdr AND 0x01 \<noteq> 0)
      in ebind (untile_from_blocks im grid blocks) (\<lambda>im.
         ebind (if level_shift_applied then inverse_level_shift im else Inr im) (\<lambda>im.
         if int32 (int (length (pixels im))) \<noteq> int32 (int32 (width im * height im) * channels im)
         then Inl (runtime_error ''decode: decoded pixel count mismatch'')
         else Inr im)))"

text \<open>
  \<open>decode_from_mcodec\<close>. \<open>header_bytes + payload_bytes\<close> is a \<open>uint32_t\<close> sum; the
  payload is the range of bytes from \<open>header_bytes\<close> to that sum.
\<close>

definition decode_from_mcodec :: "float_ops \<Rightarrow> 8 word list \<Rightarrow> error + Image" where
  "decode_from_mcodec ops bytes =
     (if length bytes < unat kMCodecHeaderBytes
      then Inl (runtime_error ''decode: buffer too small for header'')
      else
        ebind (read_bitstream_header bytes) (\<lambda>hdr.
          (let payload_end = (ucast (hdr_header_bytes hdr) :: 32 word) + hdr_payload_bytes hdr;
               payload_start = unat (hdr_header_bytes hdr)
           in if length bytes < unat payload_end
              then Inl (runtime_error ''decode: buffer smaller than declared payload_bytes'')
              else if unat payload_end < payload_start
              then Inl (undefined_behaviour ''decode: payload range ends before it starts'')
              else
                ebind (read_u32_le (take (unat payload_end - payload_start)
                                         (drop payload_start bytes))) (\<lambda>(symbol_count, r).
                ebind (read_u32_le r) (\<lambda>(used_symbol_count, r).
                if used_symbol_count = 0
                then Inl (runtime_error ''decode: used_symbol_count is zero'')
                else if length r < unat used_symbol_count * (4 + 1)
                then Inl (runtime_error ''decode: table section truncated'')
                else
                  ebind (read_entries (unat used_symbol_count) r []) (\<lambda>(entries, r).
                  ebind (read_bytes r (length r)) (\<lambda>(huff_bits, r).
                  ebind (build_table_from_code_lengths entries) (\<lambda>table.
                  ebind (huff_decode huff_bits table (unat symbol_count)) (\<lambda>symbols.
                  (let rle = unpack_rle_symbols symbols;
                       bs = uint (hdr_block_size hdr)
                   in ebind (make_grid (sint (hdr_width hdr)) (sint (hdr_height hdr)) bs) (\<lambda>grid.
                      (let coeffs_per_block = nat (bs * bs);
                           total_coeffs =
                             (nat (int32 (blocks_x grid * blocks_y grid) mod 2 ^ 64)
                                * coeffs_per_block) mod 2 ^ 64
                       in ebind (rle_decode_zeros rle bs total_coeffs) (\<lambda>seq.
                          ebind (inverse_zigzag_blocks seq bs) (\<lambda>qcoeff.
                          ebind (dequantize qcoeff bs (uint (hdr_quality hdr))) (\<lambda>coeffs.
                          ebind (idct2d_blocks ops coeffs bs) (\<lambda>blocks.
                          decode_image hdr grid blocks))))))))))))))))"

section \<open>Little-endian byte strings\<close>

text \<open>
  The little-endian encoding of a number in \<open>k\<close> bytes, for stating the container
  layout: byte \<open>i\<close> is digit \<open>i\<close> of the number in base 256.
\<close>

definition le_bytes :: "nat \<Rightarrow> nat \<Rightarrow> 8 word list" where
  "le_bytes k n = map (\<lambda>i. of_nat (n div 256 ^ i mod 256)) [0..<k]"

section \<open>Closed forms and a worked example\<close>

text \<open>
  The table entries that the loop of the encoder collects from \<open>enc\<close>, sorted: the
  (symbol, length) pairs of the valid entries with a positive length.
\<close>

definition used_entries :: "HuffTable \<Rightarrow> (32 word \<times> 8 word) list" where
  "used_entries table =
     sort_key (\<lambda>(s, l). (l, s))
       (map (\<lambda>k. (of_nat k, enc_len (enc table k)))
            (filter (\<lambda>k. enc_valid (enc table k) \<and> 0 < enc_len (enc table k))
                    [0..<enc_size table]))"

text \<open>The bytes of a container: the 32-byte header and the payload section.\<close>

definition container_bytes ::
  "Image \<Rightarrow> bool \<Rightarrow> int \<Rightarrow> int \<Rightarrow> nat \<Rightarrow> (32 word \<times> 8 word) list \<Rightarrow> 8 word list \<Rightarrow> 8 word list" where
  "container_bytes img lsa bs quality symbol_count entries huff =
     [0x4D, 0x43, 0x44, 0x43] @ le_bytes 2 1 @ le_bytes 2 32
       @ le_bytes 4 (nat (width img mod 2 ^ 32))
       @ le_bytes 4 (nat (height img mod 2 ^ 32))
       @ le_bytes 2 (nat (channels img mod 2 ^ 16))
       @ le_bytes 2 (nat (bits_allocated img mod 2 ^ 16))
       @ le_bytes 2 (nat (bits_stored img mod 2 ^ 16))
       @ [if is_signed img then 1 else 0] @ [if lsa then 1 else 0]
       @ le_bytes 2 (nat (bs mod 2 ^ 16))
       @ le_bytes 2 (nat (quality mod 2 ^ 16))
       @ le_bytes 4 (8 + 5 * length entries + length huff)
       @ le_bytes 4 symbol_count
       @ le_bytes 4 (length entries)
       @ concat (map (\<lambda>(s, l). le_bytes 4 (unat s) @ [l]) entries)
       @ huff"

text \<open>
  The transforms on all-zero buffers. Every sum of the DCT of an all-zero block is
  \<open>0.0\<close>, and the inverse DCT of all-zero coefficients rounds to 0: these are the values
  the two transforms compute on an image that is all zero after the level shift. This
  instantiates the parameter in the worked examples only.
\<close>

definition zero_block_ops :: float_ops where
  "zero_block_ops =
     \<lparr>dct_value = (\<lambda>blocks_in i. 0),
      idct_value = (\<lambda>coeff_in i. 0)\<rparr>"

text \<open>The 8x8 unsigned 8-bit image of constant 128 (scenario S1 of the specification).\<close>

definition grey_image :: Image where
  "grey_image =
     \<lparr>width = 8, height = 8, channels = 1, bits_stored = 8, bits_allocated = 8,
      is_signed = False, pixel_type = U8, pixels = replicate 64 128\<rparr>"

text \<open>
  Its packed symbols are \<open>0\<close> (the DC pair) and \<open>62 << 16\<close> (the trailing-zeros pair);
  this is the Huffman table of that stream, and the container the encoder writes for
  the image at quality \<open>q\<close> (below 256).
\<close>

definition two_symbol_table :: HuffTable where
  "two_symbol_table =
     \<lparr>enc_size = 4063233,
      enc = (\<lambda>i. default_entry)
              (0 := \<lparr>enc_code = 0, enc_len = 1, enc_valid = True\<rparr>,
               4063232 := \<lparr>enc_code = 1, enc_len = 1, enc_valid = True\<rparr>),
      decode_nodes = [\<lparr>node_left = 1, node_right = 2, node_symbol = - 1\<rparr>,
                      \<lparr>node_left = - 1, node_right = - 1, node_symbol = 0\<rparr>,
                      \<lparr>node_left = - 1, node_right = - 1, node_symbol = 4063232\<rparr>]\<rparr>"

definition grey_container :: "nat \<Rightarrow> 8 word list" where
  "grey_container q =
     [0x4D, 0x43, 0x44, 0x43, 1, 0, 32, 0, 8, 0, 0, 0, 8, 0, 0, 0, 1, 0, 8, 0, 8, 0, 1, 1,
      8, 0, of_nat q, 0, 19, 0, 0, 0,
      2, 0, 0, 0, 2, 0, 0, 0, 0, 0, 0, 0, 1, 0, 0, 0x3E, 0, 1, 0x40]"

text \<open>The image the decoder returns for that container at quality 50.\<close>

definition grey_decoded :: Image where
  "grey_decoded =
     \<lparr>width = 8, height = 8, channels = 1, bits_stored = 8, bits_allocated = 8,
      is_signed = False, pixel_type = S16, pixels = replicate 64 128\<rparr>"

text \<open>
  What \<open>quantize\<close> stores for a coefficient \<open>c\<close> when the conversion to \<open>int\<close> is
  defined: the rounded product with the rounded reciprocal of the step, clamped to
  \<open>int16_t\<close>.
\<close>

definition quantized :: "rat \<Rightarrow> int \<Rightarrow> int" where
  "quantized c step =
     min (max (round_away (fl32 (c * fl32 (1 / of_int step)))) (- 32768)) 32767"

section \<open>Bit strings\<close>

text \<open>
  The vocabulary of the round-trip proofs: the bits of a byte and of a code, most
  significant first; the bits a \<open>BitWriter\<close> holds (its bytes and the bits of the byte
  being filled); the bits a \<open>BitReader\<close> has not read yet.
\<close>

definition byte_bits :: "8 word \<Rightarrow> bool list" where
  "byte_bits b = map (bit b) (rev [0..<8])"

definition code_bits :: "32 word \<Rightarrow> nat \<Rightarrow> bool list" where
  "code_bits code n = map (bit code) (rev [0..<n])"


definition br_bits :: "BitReader \<Rightarrow> bool list" where
  "br_bits r =
     (if br_byte_idx r < length (br_data r)
      then drop (br_bit_pos r) (byte_bits (br_data r ! br_byte_idx r))
           @ concat (map byte_bits (drop (Suc (br_byte_idx r)) (br_data r)))
      else [])"

text \<open>
  \<open>trie_has nodes k bs v\<close>: from node \<open>k\<close> of the decode trie, the bits \<open>bs\<close> lead through
  nodes without a symbol to a node whose symbol is \<open>v\<close>.
\<close>

fun trie_has :: "Node list \<Rightarrow> int \<Rightarrow> bool list \<Rightarrow> int \<Rightarrow> bool" where
  "trie_has nodes k [] v =
     (0 \<le> k \<and> k < int (length nodes) \<and> node_symbol (nodes ! nat k) = v \<and> v \<noteq> - 1)"
| "trie_has nodes k (b # bs) v =
     (0 \<le> k \<and> k < int (length nodes) \<and> node_symbol (nodes ! nat k) = - 1
      \<and> (if b then node_right (nodes ! nat k) else node_left (nodes ! nat k)) \<noteq> - 1
      \<and> trie_has nodes (if b then node_right (nodes ! nat k) else node_left (nodes ! nat k)) bs v)"

section \<open>Vocabulary of the Huffman proofs\<close>


text \<open>
  The Kraft sum of a list of code lengths, scaled by \<open>2^32\<close>.
\<close>

definition kraft :: "(32 word \<times> 8 word) list \<Rightarrow> nat" where
  "kraft lens = sum_list (map (\<lambda>(s, l). 2 ^ (32 - unat l)) lens)"



text \<open>
  The child of a trie node for a bit, and the node with that child replaced.
\<close>

definition child :: "Node \<Rightarrow> bool \<Rightarrow> int" where
  "child nd b = (if b then node_right nd else node_left nd)"

definition set_child :: "Node \<Rightarrow> bool \<Rightarrow> int \<Rightarrow> Node" where
  "set_child nd b x = (if b then nd\<lparr>node_right := x\<rparr> else nd\<lparr>node_left := x\<rparr>)"




section \<open>Round trip of the run-length coder\<close>

lemma rle_expand_Nil [simp]: "rle_expand [] = []"
  by (simp add: rle_expand_def)

lemma rle_expand_Cons [simp]:
  "rle_expand (p # ps) = replicate (unat (rle_run p)) 0 @ rle_value p # rle_expand ps"
  by (simp add: rle_expand_def)

lemma rle_expand_append [simp]: "rle_expand (ps @ qs) = rle_expand ps @ rle_expand qs"
  by (simp add: rle_expand_def)

lemma rle_decode_loop_expand:
  "length seq_out + length (rle_expand ps) \<le> tot \<Longrightarrow>
   rle_decode_loop tot ps seq_out = Inr (seq_out @ rle_expand ps)"
  by (induction ps arbitrary: seq_out) (auto simp: Let_def)

text \<open>
  With fewer than \<open>0xFFFF\<close> coefficients left to count, the inner loop never splits a
  run, and the pairs it pushes, followed by the pending zeros, spell the pending zeros
  followed by the coefficients.
\<close>

lemma rle_ac_expand:
  "unat run + length vs < 65535 \<Longrightarrow> rle_ac vs run = (ps, r) \<Longrightarrow>
   rle_expand ps @ replicate (unat r) 0 = replicate (unat run) 0 @ vs"
proof (induction vs arbitrary: run ps r)
  case Nil
  then show ?case by simp
next
  case (Cons v vs)
  have run_lt: "unat run < 65535" using Cons.prems(1) by simp
  then have run_ne: "run \<noteq> 0xFFFF" by auto
  show ?case
  proof (cases "v = 0")
    case True
    have suc: "unat (run + 1) = Suc (unat run)"
      using run_lt by (simp add: unat_word_ariths)
    from True run_ne Cons.prems(2) have step: "rle_ac vs (run + 1) = (ps, r)" by simp
    have "rle_expand ps @ replicate (unat r) 0 = replicate (unat (run + 1)) 0 @ vs"
      by (rule Cons.IH [OF _ step]) (use Cons.prems(1) suc in simp)
    then show ?thesis using True suc by (simp add: replicate_app_Cons_same)
  next
    case False
    obtain qs where qs: "rle_ac vs 0 = (qs, r)" and ps: "ps = \<lparr>rle_value = v, rle_run = run\<rparr> # qs"
      using False Cons.prems(2) by (auto split: prod.splits)
    have "rle_expand qs @ replicate (unat r) 0 = replicate (unat (0::16 word)) 0 @ vs"
      by (rule Cons.IH [OF _ qs]) (use Cons.prems(1) in simp)
    then show ?thesis using ps by simp
  qed
qed

lemma rle_trailing_expand: "rle_expand (rle_trailing run) = replicate (unat run) 0"
proof (cases "0 < run")
  case True
  then have "unat run \<noteq> 0" by (simp add: unat_gt_0 word_neq_0_conv)
  moreover have "unat (run - 1) = unat run - 1"
    using True by (simp add: unat_minus_one word_neq_0_conv)
  ultimately show ?thesis
    using True by (cases "unat run") (simp_all add: rle_trailing_def replicate_append_same)
next
  case False
  then have "run = 0" using word_neq_0_conv by blast
  then show ?thesis by (simp add: rle_trailing_def)
qed

lemma rle_block_expand:
  assumes "length ac < 65535"
  shows "rle_expand (rle_block dc ac) = dc # ac"
proof -
  obtain ps r where pr: "rle_ac ac 0 = (ps, r)" by (cases "rle_ac ac 0")
  have "rle_expand ps @ replicate (unat r) 0 = replicate (unat (0::16 word)) 0 @ ac"
    by (rule rle_ac_expand [OF _ pr]) (use assms in simp)
  then show ?thesis by (simp add: rle_block_def pr rle_trailing_expand)
qed

lemma rle_blocks_expand:
  "block_elems \<le> 65535 \<Longrightarrow> rle_expand (rle_blocks block_elems xs) = xs"
proof (induction block_elems xs rule: rle_blocks.induct)
  case (1 block_elems)
  then show ?case by simp
next
  case (2 block_elems dc rest)
  have "length (take (block_elems - 1) rest) < 65535" using "2.prems" by simp
  then show ?case using 2 by (simp add: rle_block_expand)
qed

text \<open>
  C1. For every int16 buffer whose length is a positive multiple of \<open>B * B\<close>, with \<open>B\<close>
  8 or 16, \<open>rle_encode_zeros\<close> succeeds and \<open>rle_decode_zeros\<close> of its output, with
  \<open>total_coeffs\<close> the length of the buffer, returns the buffer. Blocks with an all-zero
  AC tail and blocks with a single nonzero AC coefficient at the end are buffers like
  any other; a block of at most 256 coefficients never reaches a \<open>0xFFFF\<close> split.
\<close>

theorem rle_round_trip:
  assumes "B = 8 \<or> B = 16"
    and "0 < length x"
    and "length x mod nat (B * B) = 0"
  shows "\<exists>rle. rle_encode_zeros x B = Inr rle \<and> rle_decode_zeros rle B (length x) = Inr x"
proof -
  let ?rle = "rle_blocks (nat (B * B)) x"
  have enc: "rle_encode_zeros x B = Inr ?rle"
    using assms by (auto simp: rle_encode_zeros_def)
  have "nat (B * B) \<le> 65535" using assms(1) by auto
  then have ex: "rle_expand ?rle = x" by (rule rle_blocks_expand)
  then have "rle_decode_loop (length x) ?rle [] = Inr ([] @ rle_expand ?rle)"
    by (intro rle_decode_loop_expand) simp
  then have "rle_decode_zeros ?rle B (length x) = Inr x"
    using assms(1) ex by (auto simp: rle_decode_zeros_def)
  with enc show ?thesis by blast
qed

theorem rle_round_trip_witness:
  "((8::int) = 8 \<or> (8::int) = 16) \<and>
   0 < length (replicate 63 0 @ [5 :: 16 word]) \<and>
   length (replicate 63 0 @ [5 :: 16 word]) mod nat (8 * 8) = 0 \<and>
   (\<exists>rle. rle_encode_zeros (replicate 63 0 @ [5]) 8 = Inr rle \<and>
          rle_decode_zeros rle 8 (length (replicate 63 0 @ [5 :: 16 word]))
            = Inr (replicate 63 0 @ [5]))"
  using rle_round_trip [of 8 "replicate 63 0 @ [5]"] by simp

section \<open>The trailing-zeros pair\<close>

lemma rle_blocks_append:
  "0 < n \<Longrightarrow> length xs mod n = 0 \<Longrightarrow>
   rle_blocks n (xs @ ys) = rle_blocks n xs @ rle_blocks n ys"
proof (induction n xs rule: rle_blocks.induct)
  case (1 n)
  then show ?case by simp
next
  case (2 n dc rest)
  have "n dvd Suc (length rest)" using "2.prems" by (simp add: dvd_eq_mod_eq_0)
  then have le: "n \<le> Suc (length rest)" by (rule dvd_imp_le) simp
  then have len: "n - 1 \<le> length rest" by simp
  have "length (drop (n - 1) rest) = Suc (length rest) - n"
    using "2.prems"(1) by simp
  moreover have "n dvd Suc (length rest) - n"
    using \<open>n dvd Suc (length rest)\<close> by (rule dvd_diff_nat) simp
  ultimately have "length (drop (n - 1) rest) mod n = 0"
    by (simp add: dvd_eq_mod_eq_0)
  then have "rle_blocks n (drop (n - 1) rest @ ys)
      = rle_blocks n (drop (n - 1) rest) @ rle_blocks n ys"
    using "2.IH" "2.prems"(1) by simp
  then show ?case using len by simp
qed

lemma rle_blocks_single:
  "length ac = n - 1 \<Longrightarrow> rle_blocks n (dc # ac) = rle_block dc ac"
  by simp

text \<open>
  The counter after the inner loop is the number of zeros at the end of the AC
  coefficients (no run is split in a block of fewer than \<open>0xFFFF\<close> coefficients).
\<close>

lemma rle_ac_counter:
  "unat run + length vs < 65535 \<Longrightarrow> rle_ac vs run = (ps, r) \<Longrightarrow>
   unat r = (if \<forall>v \<in> set vs. v = 0 then unat run + length vs
             else length (takeWhile (\<lambda>v. v = 0) (rev vs)))"
proof (induction vs arbitrary: run ps r)
  case Nil
  then show ?case by simp
next
  case (Cons v vs)
  have run_lt: "unat run < 65535" using Cons.prems(1) by simp
  then have run_ne: "run \<noteq> 0xFFFF" by auto
  show ?case
  proof (cases "v = 0")
    case True
    have suc: "unat (run + 1) = Suc (unat run)"
      using run_lt by (simp add: unat_word_ariths)
    from True run_ne Cons.prems(2) have step: "rle_ac vs (run + 1) = (ps, r)" by simp
    have "unat r = (if \<forall>v \<in> set vs. v = 0 then unat (run + 1) + length vs
                    else length (takeWhile (\<lambda>v. v = 0) (rev vs)))"
      by (rule Cons.IH [OF _ step]) (use Cons.prems(1) suc in simp)
    then show ?thesis using True suc by (auto simp: takeWhile_append1)
  next
    case False
    obtain qs where qs: "rle_ac vs 0 = (qs, r)"
      using False Cons.prems(2) by (auto split: prod.splits)
    have ih: "unat r = (if \<forall>v \<in> set vs. v = 0 then unat (0::16 word) + length vs
                        else length (takeWhile (\<lambda>v. v = 0) (rev vs)))"
      by (rule Cons.IH [OF _ qs]) (use Cons.prems(1) in simp)
    show ?thesis
    proof (cases "\<forall>v \<in> set vs. v = 0")
      case True
      then have "takeWhile (\<lambda>v. v = 0) (rev vs @ [v]) = rev vs"
        using False by (subst takeWhile_append2) auto
      then show ?thesis using ih True False by simp
    next
      case nz: False
      then have "takeWhile (\<lambda>v. v = 0) (rev vs @ [v]) = takeWhile (\<lambda>v. v = 0) (rev vs)"
        by (auto simp: takeWhile_append1)
      then show ?thesis using ih nz False by simp
    qed
  qed
qed

lemma rle_decode_single_zero_pair:
  assumes "B = 8 \<or> B = 16" and "0 < run"
  shows "rle_decode_zeros [\<lparr>rle_value = 0, rle_run = run - 1\<rparr>] B (unat run)
         = Inr (replicate (unat run) 0)"
proof -
  have "rle_expand [\<lparr>rle_value = 0, rle_run = run - 1\<rparr>] = replicate (unat run) 0"
    using rle_trailing_expand [of run] assms(2) by (simp add: rle_trailing_def)
  then have "rle_decode_loop (unat run) [\<lparr>rle_value = 0, rle_run = run - 1\<rparr>] []
             = Inr (replicate (unat run) 0)"
    using rle_decode_loop_expand [of "[]" "[\<lparr>rle_value = 0, rle_run = run - 1\<rparr>]" "unat run"]
    by simp
  then show ?thesis using assms(1) by (auto simp: rle_decode_zeros_def)
qed

lemma rle_ac_zeros: "unat run + n < 65535 \<Longrightarrow> rle_ac (replicate n 0) run = ([], run + of_nat n)"
proof (induction n arbitrary: run)
  case 0
  then show ?case by simp
next
  case (Suc n)
  have "unat run < 65535" using Suc.prems by simp
  then have ne: "run \<noteq> 0xFFFF" by auto
  have "unat (run + 1) = Suc (unat run)"
    using \<open>unat run < 65535\<close> by (simp add: unat_word_ariths)
  then have "rle_ac (replicate n 0) (run + 1) = ([], run + 1 + of_nat n)"
    using Suc.prems by (intro Suc.IH) simp
  then show ?case using ne by (simp add: add.assoc)
qed

lemma rle_encode_zero_block8:
  "rle_encode_zeros (replicate 64 0) 8
   = Inr [\<lparr>rle_value = 0, rle_run = 0\<rparr>, \<lparr>rle_value = 0, rle_run = 62\<rparr>]"
proof -
  have r: "replicate 64 (0::16 word) = 0 # replicate 63 0"
    by (simp add: numeral_eq_Suc)
  have "rle_ac (replicate 63 0) 0 = ([], 0 + of_nat 63)"
    by (rule rle_ac_zeros) simp
  then have "rle_block 0 (replicate 63 0)
      = [\<lparr>rle_value = 0, rle_run = 0\<rparr>, \<lparr>rle_value = 0, rle_run = 62\<rparr>]"
    by (simp add: rle_block_def rle_trailing_def)
  then show ?thesis by (simp add: rle_encode_zeros_def r)
qed

text \<open>
  C3. In one block of \<open>rle_encode_zeros\<close> (anywhere in a buffer of whole blocks), the
  pairs of the block are the DC pair, the pairs of the inner loop, and, when the counter
  \<open>run\<close> left by the inner loop is positive, exactly one more pair \<open>(0, run - 1)\<close>;
  nothing is pushed when it is zero. The counter is the number of zeros at the end of
  the AC coefficients, and decoding the pair \<open>(0, run - 1)\<close> alone gives exactly \<open>run\<close>
  zeros. An all-zero 8x8 block encodes as \<open>(0, 0)\<close>, \<open>(0, 62)\<close>.
\<close>

theorem rle_trailing_zeros_pair:
  assumes "B = 8 \<or> B = 16"
    and "length before mod nat (B * B) = 0"
    and "length after mod nat (B * B) = 0"
    and "length ac = nat (B * B) - 1"
    and "rle_ac ac 0 = (ps, run)"
  shows "rle_encode_zeros (before @ dc # ac @ after) B
         = Inr (rle_blocks (nat (B * B)) before
                @ \<lparr>rle_value = dc, rle_run = 0\<rparr> # ps
                @ (if 0 < run then [\<lparr>rle_value = 0, rle_run = run - 1\<rparr>] else [])
                @ rle_blocks (nat (B * B)) after)
       \<and> unat run = length (takeWhile (\<lambda>v. v = 0) (rev ac))
       \<and> (if 0 < run
          then rle_decode_zeros [\<lparr>rle_value = 0, rle_run = run - 1\<rparr>] B (unat run)
               = Inr (replicate (unat run) 0)
          else True)
       \<and> rle_encode_zeros (replicate 64 0) 8
         = Inr [\<lparr>rle_value = 0, rle_run = 0\<rparr>, \<lparr>rle_value = 0, rle_run = 62\<rparr>]"
proof -
  let ?n = "nat (B * B)"
  have n0: "0 < ?n" using assms(1) by auto
  have blk: "length (dc # ac) mod ?n = 0" using assms(1,4) by auto
  have "length (before @ dc # ac @ after) mod ?n = 0"
  proof -
    have "?n dvd length before" "?n dvd length after" "?n dvd length (dc # ac)"
      using assms(2,3) blk by (simp_all only: dvd_eq_mod_eq_0)
    then have "?n dvd length before + (length (dc # ac) + length after)"
      by (intro dvd_add)
    then show ?thesis by (simp add: dvd_eq_mod_eq_0)
  qed
  then have enc: "rle_encode_zeros (before @ dc # ac @ after) B
      = Inr (rle_blocks ?n (before @ dc # ac @ after))"
    using assms(1) by (auto simp: rle_encode_zeros_def)
  have "rle_blocks ?n (before @ (dc # ac) @ after)
      = rle_blocks ?n before @ rle_blocks ?n ((dc # ac) @ after)"
    by (rule rle_blocks_append [OF n0 assms(2)])
  also have "rle_blocks ?n ((dc # ac) @ after)
      = rle_blocks ?n (dc # ac) @ rle_blocks ?n after"
    by (rule rle_blocks_append [OF n0 blk])
  also have "rle_blocks ?n (dc # ac) = rle_block dc ac"
    by (rule rle_blocks_single [OF assms(4)])
  finally have pairs: "rle_blocks ?n (before @ dc # ac @ after)
      = rle_blocks ?n before
        @ \<lparr>rle_value = dc, rle_run = 0\<rparr> # ps
        @ (if 0 < run then [\<lparr>rle_value = 0, rle_run = run - 1\<rparr>] else [])
        @ rle_blocks ?n after"
    by (simp add: rle_block_def assms(5) rle_trailing_def)
  have short: "unat (0::16 word) + length ac < 65535" using assms(1,4) by auto
  have cnt: "unat run = length (takeWhile (\<lambda>v. v = 0) (rev ac))"
  proof (cases "\<forall>v \<in> set ac. v = 0")
    case True
    then have "takeWhile (\<lambda>v. v = 0) (rev ac) = rev ac"
      by (intro takeWhile_eq_all_conv [THEN iffD2]) simp
    then have "length (takeWhile (\<lambda>v. v = 0) (rev ac)) = length (rev ac)"
      by (rule arg_cong)
    then show ?thesis using rle_ac_counter [OF short assms(5)] True by simp
  next
    case False
    then show ?thesis using rle_ac_counter [OF short assms(5)] by auto
  qed
  have dec: "0 < run \<Longrightarrow>
      rle_decode_zeros [\<lparr>rle_value = 0, rle_run = run - 1\<rparr>] B (unat run)
      = Inr (replicate (unat run) 0)"
    by (rule rle_decode_single_zero_pair [OF assms(1)])
  show ?thesis using enc pairs cnt dec rle_encode_zero_block8 by simp
qed

theorem rle_trailing_zeros_pair_witness:
  "rle_encode_zeros (replicate 64 0 @ 7 # (3 # replicate 62 0) @ []) 8
     = Inr (rle_blocks 64 (replicate 64 0)
            @ \<lparr>rle_value = 7, rle_run = 0\<rparr> # [\<lparr>rle_value = 3, rle_run = 0\<rparr>]
            @ [\<lparr>rle_value = 0, rle_run = 61\<rparr>] @ [])
   \<and> unat (62 :: 16 word) = length (takeWhile (\<lambda>v. v = 0) (rev (3 # replicate 62 (0 :: 16 word))))
   \<and> rle_decode_zeros [\<lparr>rle_value = 0, rle_run = 61\<rparr>] 8 62 = Inr (replicate 62 0)"
proof -
  have ac: "rle_ac (3 # replicate 62 0) 0 = ([\<lparr>rle_value = 3, rle_run = 0\<rparr>], 62)"
    using rle_ac_zeros [of 0 62] by simp
  show ?thesis
    using rle_trailing_zeros_pair [of 8 "replicate 64 0" "[]" "3 # replicate 62 0"
        "[\<lparr>rle_value = 3, rle_run = 0\<rparr>]" 62 7, OF _ _ _ _ ac]
    by simp
qed

section \<open>Level shift and \<open>bits_stored\<close>\<close>

text \<open>
  C9, as the code has it. With a non-empty pixel buffer, \<open>apply_level_shift\<close> and
  \<open>inverse_level_shift\<close> throw whenever \<open>bits_stored\<close> lies outside 1..16. On an empty
  pixel buffer both return at once, before \<open>bits_stored\<close> is looked at, and leave the
  image as it is.
\<close>

theorem level_shift_bits_stored_check:
  assumes "bits_stored img < 1 \<or> 16 < bits_stored img"
  shows "(if pixels img = []
          then apply_level_shift img = Inr img \<and> inverse_level_shift img = Inr img
          else apply_level_shift img
                 = Inl (runtime_error ''apply_level_shift: invalid bits_stored'')
             \<and> inverse_level_shift img
                 = Inl (runtime_error ''inverse_level_shift: invalid bits_stored''))"
  using assms by (auto simp: apply_level_shift_def inverse_level_shift_def)

theorem level_shift_bits_stored_check_witness:
  "apply_level_shift \<lparr>width = 1, height = 1, channels = 1, bits_stored = 17,
       bits_allocated = 16, is_signed = False, pixel_type = U16, pixels = [5]\<rparr>
     = Inl (runtime_error ''apply_level_shift: invalid bits_stored'')
   \<and> inverse_level_shift \<lparr>width = 1, height = 1, channels = 1, bits_stored = 17,
       bits_allocated = 16, is_signed = False, pixel_type = U16, pixels = [5]\<rparr>
     = Inl (runtime_error ''inverse_level_shift: invalid bits_stored'')"
  using level_shift_bits_stored_check [of "\<lparr>width = 1, height = 1, channels = 1,
       bits_stored = 17, bits_allocated = 16, is_signed = False, pixel_type = U16,
       pixels = [5]\<rparr>"]
  by simp

text \<open>
  The claim as stated fails on the default-constructed image (no pixels,
  \<open>bits_stored = 0\<close>): neither function throws.
\<close>

theorem level_shift_empty_image_counterexample:
  "bits_stored \<lparr>width = 0, height = 0, channels = 1, bits_stored = 0,
       bits_allocated = 0, is_signed = False, pixel_type = U16, pixels = []\<rparr> < 1
   \<and> apply_level_shift \<lparr>width = 0, height = 0, channels = 1, bits_stored = 0,
       bits_allocated = 0, is_signed = False, pixel_type = U16, pixels = []\<rparr>
     = Inr \<lparr>width = 0, height = 0, channels = 1, bits_stored = 0,
       bits_allocated = 0, is_signed = False, pixel_type = U16, pixels = []\<rparr>
   \<and> inverse_level_shift \<lparr>width = 0, height = 0, channels = 1, bits_stored = 0,
       bits_allocated = 0, is_signed = False, pixel_type = U16, pixels = []\<rparr>
     = Inr \<lparr>width = 0, height = 0, channels = 1, bits_stored = 0,
       bits_allocated = 0, is_signed = False, pixel_type = U16, pixels = []\<rparr>"
  by (simp add: apply_level_shift_def inverse_level_shift_def)


section \<open>Sequencing and the 32-bit loop\<close>

lemma u32_for_never_returns:
  assumes "u32_for n body i s = Some r"
  shows "n < 2 ^ 32"
proof (rule u32_for.raw_induct [where P = "\<lambda>n body i s r. n < 2 ^ 32", OF _ assms])
  fix f :: "nat \<Rightarrow> (32 word \<Rightarrow> 'a \<Rightarrow> 'a) \<Rightarrow> 32 word \<Rightarrow> 'a \<Rightarrow> 'a option"
    and n body i s y
  assume ih: "\<And>n body i s y. f n body i s = Some y \<Longrightarrow> n < 2 ^ 32"
    and step: "(if unat i < n then f n body (i + 1) (body i s) else Some s) = Some y"
  have "unat i < 2 ^ 32" using unsigned_less [of i] by simp
  then show "n < 2 ^ 32" using ih step by (auto split: if_splits)
qed

lemma u32_for_fold:
  "n < 2 ^ 32 \<Longrightarrow> unat i \<le> n \<Longrightarrow>
   u32_for n body i s = Some (fold body (map of_nat [unat i..<n]) s)"
proof (induction "n - unat i" arbitrary: i s)
  case 0
  then have "unat i = n" by simp
  then show ?case by (subst u32_for.simps) simp
next
  case (Suc k)
  then have lt: "unat i < n" by simp
  then have suc: "unat (i + 1) = Suc (unat i)"
    using Suc.prems(1) by (simp add: unat_word_ariths)
  have "u32_for n body (i + 1) (body i s)
      = Some (fold body (map of_nat [unat (i + 1)..<n]) (body i s))"
    using Suc suc by (intro Suc.hyps(1)) simp_all
  then show ?case
    using lt suc by (subst u32_for.simps) (simp add: upt_rec [of "unat i"])
qed

section \<open>Bytes of the container\<close>

lemma mask_FF: "(0xFF :: 'a::len word) = mask 8" by (simp add: mask_eq_exp_minus_1)
lemma mask_FFFF: "(0xFFFF :: 'a::len word) = mask 16" by (simp add: mask_eq_exp_minus_1)

lemma byte_of_nat: "(of_nat (n div 256 ^ i mod 256) :: 8 word) = of_nat (drop_bit (8 * i) n)"
proof -
  have "n div 256 ^ i mod 256 = take_bit 8 (drop_bit (8 * i) n)"
    by (simp add: take_bit_eq_mod drop_bit_eq_div power_mult)
  then show ?thesis
    by (simp add: word_of_nat_eq_iff)
qed

lemma le_bytes_2: "le_bytes 2 n = [of_nat (drop_bit 0 n), of_nat (drop_bit 8 n)]"
proof -
  have "[0..<2] = [0, 1]" by (simp add: upt_rec)
  then show ?thesis
    using byte_of_nat [of n 0] byte_of_nat [of n 1]
    by (simp add: le_bytes_def)
qed

lemma le_bytes_4:
  "le_bytes 4 n = [of_nat (drop_bit 0 n), of_nat (drop_bit 8 n), of_nat (drop_bit 16 n), of_nat (drop_bit 24 n)]"
proof -
  have "[0..<4] = [0, 1, 2, Suc 2]" by (simp add: upt_rec)
  then show ?thesis
    using byte_of_nat [of n 0] byte_of_nat [of n 1] byte_of_nat [of n 2] byte_of_nat [of n 3]
    by (simp add: le_bytes_def)
qed

lemma length_le_bytes [simp]: "length (le_bytes k n) = k"
  by (simp add: le_bytes_def)

lemma write_u16_le_bytes: "write_u16_le buf v = buf @ le_bytes 2 (unat v)"
proof -
  have "(ucast (v AND 0xFF) :: 8 word) = of_nat (drop_bit 0 (unat v))"
    unfolding mask_FF by (rule bit_word_eqI) (auto simp: bit_simps)
  moreover have "(ucast (drop_bit 8 v AND 0xFF) :: 8 word) = of_nat (drop_bit 8 (unat v))"
    unfolding mask_FF by (rule bit_word_eqI) (auto simp: bit_simps)
  ultimately show ?thesis by (simp only: write_u16_le_def le_bytes_2)
qed

lemma write_u32_le_bytes: "write_u32_le buf v = buf @ le_bytes 4 (unat v)"
proof -
  have "(ucast ((ucast (v AND 0xFFFF) :: 16 word) AND 0xFF) :: 8 word) = of_nat (drop_bit 0 (unat v))"
    unfolding mask_FF mask_FFFF by (rule bit_word_eqI) (auto simp: bit_simps)
  moreover have "(ucast (drop_bit 8 (ucast (v AND 0xFFFF) :: 16 word) AND 0xFF) :: 8 word) = of_nat (drop_bit 8 (unat v))"
    unfolding mask_FF mask_FFFF by (rule bit_word_eqI) (auto simp: bit_simps)
  moreover have "(ucast ((ucast (drop_bit 16 v AND 0xFFFF) :: 16 word) AND 0xFF) :: 8 word) = of_nat (drop_bit 16 (unat v))"
    unfolding mask_FF mask_FFFF by (rule bit_word_eqI) (auto simp: bit_simps)
  moreover have "(ucast (drop_bit 8 (ucast (drop_bit 16 v AND 0xFFFF) :: 16 word) AND 0xFF) :: 8 word) = of_nat (drop_bit 24 (unat v))"
    unfolding mask_FF mask_FFFF by (rule bit_word_eqI) (auto simp: bit_simps)
  ultimately show ?thesis by (simp only: write_u32_le_def write_u16_le_def le_bytes_4 append_assoc append.simps)
qed

lemma patch_bytes:
  "[ucast (p AND 0xFF), ucast (drop_bit 8 p AND 0xFF), ucast (drop_bit 16 p AND 0xFF),
    ucast (drop_bit 24 p AND 0xFF)] = le_bytes 4 (unat (p :: 32 word))"
proof -
  have "(ucast (p AND 0xFF) :: 8 word) = of_nat (drop_bit 0 (unat p))"
    unfolding mask_FF by (rule bit_word_eqI) (auto simp: bit_simps)
  moreover have "(ucast (drop_bit 8 p AND 0xFF) :: 8 word) = of_nat (drop_bit 8 (unat p))"
    unfolding mask_FF by (rule bit_word_eqI) (auto simp: bit_simps)
  moreover have "(ucast (drop_bit 16 p AND 0xFF) :: 8 word) = of_nat (drop_bit 16 (unat p))"
    unfolding mask_FF by (rule bit_word_eqI) (auto simp: bit_simps)
  moreover have "(ucast (drop_bit 24 p AND 0xFF) :: 8 word) = of_nat (drop_bit 24 (unat p))"
    unfolding mask_FF by (rule bit_word_eqI) (auto simp: bit_simps)
  ultimately show ?thesis by (simp only: le_bytes_4)
qed

lemma write_entries_fold:
  "fold (\<lambda>(s, len) w. write_u8 (write_u32_le w s) len) es w
   = w @ concat (map (\<lambda>(s, l). le_bytes 4 (unat s) @ [l]) es)"
  by (induction es arbitrary: w) (auto simp: write_u8_def write_u32_le_bytes)


lemma header_layout:
  "write_bitstream_header w im flags bs quality
   = w @ [0x4D, 0x43, 0x44, 0x43] @ le_bytes 2 1 @ le_bytes 2 32
       @ le_bytes 4 (unat (word_of_int (width im) :: 32 word))
       @ le_bytes 4 (unat (word_of_int (height im) :: 32 word))
       @ le_bytes 2 (unat (word_of_int (channels im) :: 16 word))
       @ le_bytes 2 (unat (word_of_int (bits_allocated im) :: 16 word))
       @ le_bytes 2 (unat (word_of_int (bits_stored im) :: 16 word))
       @ [if is_signed im then 1 else 0] @ [flags]
       @ le_bytes 2 (unat bs) @ le_bytes 2 (unat quality) @ le_bytes 4 0"
  by (simp add: write_bitstream_header_def Let_def write_bytes_def write_u8_def
      write_u16_le_bytes write_u32_le_bytes kMCodecHeaderBytes_def)

lemma list_update_at_length:
  "length h = n \<Longrightarrow> (h @ a # rest)[n := b] = h @ b # rest"
  by (simp add: list_update_append)

lemma patch_at_28:
  assumes "length h = 28"
  shows "(h @ [a0, a1, a2, a3] @ rest)[28 := b0, 29 := b1, 30 := b2, 31 := b3]
   = h @ [b0, b1, b2, b3] @ rest"
proof -
  have 1: "(h @ [a0, a1, a2, a3] @ rest)[28 := b0] = h @ b0 # ([a1, a2, a3] @ rest)"
    using list_update_at_length [OF assms] by simp
  have 2: "(h @ b0 # ([a1, a2, a3] @ rest))[29 := b1] = (h @ [b0]) @ b1 # ([a2, a3] @ rest)"
    using list_update_at_length [of "h @ [b0]" 29] assms by simp
  have 3: "((h @ [b0]) @ b1 # ([a2, a3] @ rest))[30 := b2] = (h @ [b0, b1]) @ b2 # ([a3] @ rest)"
    using list_update_at_length [of "h @ [b0, b1]" 30] assms by simp
  have 4: "((h @ [b0, b1]) @ b2 # ([a3] @ rest))[31 := b3] = (h @ [b0, b1, b2]) @ b3 # rest"
    using list_update_at_length [of "h @ [b0, b1, b2]" 31] assms by simp
  show ?thesis by (simp only: 1 2 3 4) simp
qed


lemma ebind_Inr_iff: "ebind m f = Inr y \<longleftrightarrow> (\<exists>x. m = Inr x \<and> f x = Inr y)"
  by (cases m) (simp_all add: ebind_def)

lemma ebind_Inl [simp]: "ebind (Inl e) f = Inl e"
  by (simp add: ebind_def)

lemma ebind_Inr [simp]: "ebind (Inr x) f = f x"
  by (simp add: ebind_def)

lemma le_bytes_4_mod: "le_bytes 4 (n mod 2 ^ 32) = le_bytes 4 n"
proof -
  have *: "(of_nat (drop_bit k (n mod 2 ^ 32)) :: 8 word) = of_nat (drop_bit k n)"
    if "k \<le> 24" for k
    using that unfolding take_bit_eq_mod [symmetric]
    by (intro bit_word_eqI) (auto simp: bit_simps)
  show ?thesis
    unfolding le_bytes_4 using * [of 0] * [of 8] * [of 16] * [of 24] by simp
qed

lemma le_bytes_2_mod: "le_bytes 2 (n mod 2 ^ 16) = le_bytes 2 n"
proof -
  have *: "(of_nat (drop_bit k (n mod 2 ^ 16)) :: 8 word) = of_nat (drop_bit k n)"
    if "k \<le> 8" for k
    using that unfolding take_bit_eq_mod [symmetric]
    by (intro bit_word_eqI) (auto simp: bit_simps)
  show ?thesis
    unfolding le_bytes_2 using * [of 0] * [of 8] by simp
qed

lemma unat_of_nat32: "unat (of_nat k :: 32 word) = k mod 2 ^ 32"
  by (simp add: unat_of_nat)

lemma fold_collect:
  "fold (\<lambda>i acc. if P i then acc @ [g i] else acc) xs acc = acc @ map g (filter P xs)"
  by (induction xs arbitrary: acc) auto

lemma unat_of_nat_small: "k < 2 ^ 32 \<Longrightarrow> unat (of_nat k :: 32 word) = k"
  by (simp add: unat_of_nat32)

lemma u32_for_collect:
  assumes "n < 2 ^ 32"
  shows "u32_for n (\<lambda>i acc. if P (unat i) then acc @ [g (unat i) i] else acc) 0 []
         = Some (map (\<lambda>k. g k (of_nat k)) (filter P [0..<n]))"
proof -
  have "u32_for n (\<lambda>i acc. if P (unat i) then acc @ [g (unat i) i] else acc) 0 []
      = Some (fold (\<lambda>i acc. if P (unat i) then acc @ [g (unat i) i] else acc)
                (map of_nat [unat (0 :: 32 word)..<n]) [])"
    by (rule u32_for_fold [OF assms]) simp
  also have "fold (\<lambda>i acc. if P (unat i) then acc @ [g (unat i) i] else acc)
                (map of_nat [unat (0 :: 32 word)..<n]) []
      = map (\<lambda>i. g (unat i) i) (filter (\<lambda>i. P (unat i)) (map of_nat [0..<n]))"
    by (simp add: fold_collect [where P = "\<lambda>i. P (unat i)" and g = "\<lambda>i. g (unat i) i"])
  also have "filter (\<lambda>i :: 32 word. P (unat i)) (map of_nat [0..<n])
      = map of_nat (filter P [0..<n])"
  proof -
    have "filter (\<lambda>k. P (unat (of_nat k :: 32 word))) [0..<n] = filter P [0..<n]"
    proof (rule filter_cong [OF refl])
      fix k assume "k \<in> set [0..<n]"
      then have "k < 2 ^ 32" using assms by simp
      then show "P (unat (of_nat k :: 32 word)) = P k" by (simp add: unat_of_nat_small)
    qed
    then show ?thesis by (simp add: filter_map comp_def)
  qed
  also have "map (\<lambda>i :: 32 word. g (unat i) i) (map of_nat (filter P [0..<n]))
      = map (\<lambda>k. g k (of_nat k)) (filter P [0..<n])"
  proof -
    have "map (\<lambda>k. g (unat (of_nat k :: 32 word)) (of_nat k)) (filter P [0..<n])
        = map (\<lambda>k. g k (of_nat k)) (filter P [0..<n])"
    proof (rule map_cong [OF refl])
      fix k assume "k \<in> set (filter P [0..<n])"
      then have "k < 2 ^ 32" using assms by simp
      then show "g (unat (of_nat k :: 32 word)) (of_nat k) = g k (of_nat k)"
        by (simp add: unat_of_nat_small)
    qed
    then show ?thesis by (simp add: comp_def)
  qed
  finally show ?thesis .
qed

lemma filter_upt_sparse:
  assumes "sorted ks" "distinct ks" "\<And>k. k \<in> set ks \<longleftrightarrow> k < n \<and> P k"
  shows "filter P [0..<n] = ks"
proof (rule sorted_distinct_set_unique)
  show "sorted (filter P [0..<n])" by (simp add: sorted_wrt_filter)
  show "distinct (filter P [0..<n])" by simp
  show "set (filter P [0..<n]) = set ks" using assms(3) by auto
qed (use assms in auto)

lemma zigzag_order_8:
  "make_zigzag_order 8 = Inr [0, 1, 8, 16, 9, 2, 3, 10, 17, 24, 32, 25, 18, 11, 4, 5, 12, 19, 26,
      33, 40, 48, 41, 34, 27, 20, 13, 6, 7, 14, 21, 28, 35, 42, 49, 56, 57,
      50, 43, 36, 29, 22, 15, 23, 30, 37, 44, 51, 58, 59, 52, 45, 38, 31,
      39, 46, 53, 60, 61, 54, 47, 55, 62, 63]"
  by code_simp

lemma zigzag_zero_block: "zigzag_scan_blocks (replicate 64 0) 8 = Inr (replicate 64 0)"
  by code_simp

lemma inverse_zigzag_zero_block: "inverse_zigzag_blocks (replicate 64 0) 8 = Inr (replicate 64 0)"
  by code_simp



lemma unat_word_of_int32: "unat (word_of_int x :: 32 word) = nat (x mod 2 ^ 32)"
  by (simp add: unat_eq_nat_uint uint_word_of_int)

lemma unat_word_of_int16: "unat (word_of_int x :: 16 word) = nat (x mod 2 ^ 16)"
  by (simp add: unat_eq_nat_uint uint_word_of_int)

lemma write_container_entries:
  assumes "enc_size table < 2 ^ 32"
  shows "\<exists>es. u32_for (enc_size table)
        (\<lambda>i es. if enc_valid (enc table (unat i)) \<and> 0 < enc_len (enc table (unat i))
                 then es @ [(i, enc_len (enc table (unat i)))] else es) 0 [] = Some es
      \<and> sort_key (\<lambda>(s, l). (l, s)) es = used_entries table"
  using u32_for_collect [OF assms,
      where P = "\<lambda>k. enc_valid (enc table k) \<and> 0 < enc_len (enc table k)"
        and g = "\<lambda>k i. (i, enc_len (enc table k))"]
  by (simp add: used_entries_def)

lemma write_container_eq:
  "write_container img lsa bs quality symbols table huff =
     (if 2 ^ 32 \<le> enc_size table then None
      else if used_entries table = []
      then Some (Inl (runtime_error ''encode: no used symbols for Huffman table''))
      else if 2 ^ 32 \<le> 32 + (8 + 5 * length (used_entries table) + length huff)
      then Some (Inl (runtime_error ''encode: buffer size mismatch after patching payload_bytes''))
      else Some (Inr (container_bytes img lsa bs quality (length symbols)
                        (used_entries table) huff)))"
proof (cases "2 ^ 32 \<le> enc_size table")
  case True
  have "u32_for (enc_size table)
        (\<lambda>i es. if enc_valid (enc table (unat i)) \<and> 0 < enc_len (enc table (unat i))
                 then es @ [(i, enc_len (enc table (unat i)))] else es) 0 [] = None"
  proof (rule ccontr)
    assume "\<not> ?thesis"
    then obtain r where "u32_for (enc_size table)
        (\<lambda>i es. if enc_valid (enc table (unat i)) \<and> 0 < enc_len (enc table (unat i))
                 then es @ [(i, enc_len (enc table (unat i)))] else es) 0 [] = Some r"
      by blast
    then have "enc_size table < 2 ^ 32" by (rule u32_for_never_returns)
    with True show False by simp
  qed
  then show ?thesis using True by (simp add: write_container_def)
next
  case False
  then have sz: "enc_size table < 2 ^ 32" by simp
  then obtain es0 where es0: "u32_for (enc_size table)
        (\<lambda>i es. if enc_valid (enc table (unat i)) \<and> 0 < enc_len (enc table (unat i))
                 then es @ [(i, enc_len (enc table (unat i)))] else es) 0 [] = Some es0"
    and es0s: "sort_key (\<lambda>(s, l). (l, s)) es0 = used_entries table"
    using write_container_entries by blast
  define es where "es = used_entries table"
  define n where "n = length es"
  define m where "m = length huff"
  define pb :: "32 word" where "pb = 4 + 4 + of_nat n * (4 + 1) + of_nat m"
  define h28 where "h28 = [0x4D, 0x43, 0x44, 0x43] @ le_bytes 2 1 @ le_bytes 2 32
        @ le_bytes 4 (unat (word_of_int (width img) :: 32 word))
        @ le_bytes 4 (unat (word_of_int (height img) :: 32 word))
        @ le_bytes 2 (unat (word_of_int (channels img) :: 16 word))
        @ le_bytes 2 (unat (word_of_int (bits_allocated img) :: 16 word))
        @ le_bytes 2 (unat (word_of_int (bits_stored img) :: 16 word))
        @ [if is_signed img then 1 else 0] @ [if lsa then 1 else 0 :: 8 word]
        @ le_bytes 2 (unat (word_of_int bs :: 16 word))
        @ le_bytes 2 (unat (word_of_int quality :: 16 word))"
  define rest where "rest = le_bytes 4 (unat (of_nat (length symbols) :: 32 word))
        @ le_bytes 4 (unat (of_nat n :: 32 word))
        @ concat (map (\<lambda>(s, l). le_bytes 4 (unat s) @ [l]) es) @ huff"
  have len28: "length h28 = 28" by (simp add: h28_def)
  have w: "write_bytes (fold (\<lambda>(s, len) w. write_u8 (write_u32_le w s) len) es
             (write_u32_le (write_u32_le
                (write_bitstream_header [] img (if lsa then 0x01 else 0x00)
                   (word_of_int bs) (word_of_int quality))
                (of_nat (length symbols))) (of_nat n))) huff
           = h28 @ le_bytes 4 0 @ rest"
    by (subst write_entries_fold)
       (simp add: header_layout write_u32_le_bytes write_bytes_def h28_def rest_def)
  have z: "le_bytes 4 0 = [0, 0, 0, 0]" by (simp add: le_bytes_4)
  have patched: "(h28 @ le_bytes 4 0 @ rest)[28 := ucast (pb AND 0xFF),
        29 := ucast (drop_bit 8 pb AND 0xFF), 30 := ucast (drop_bit 16 pb AND 0xFF),
        31 := ucast (drop_bit 24 pb AND 0xFF)] = h28 @ le_bytes 4 (unat pb) @ rest"
    unfolding z patch_bytes [symmetric] by (rule patch_at_28 [OF len28])
  have lrest: "length rest = 8 + 5 * n + m"
    by (simp add: rest_def m_def n_def length_concat comp_def case_prod_unfold sum_list_triv)
  have l1: "length (h28 @ le_bytes 4 0 @ rest) = 32 + (8 + 5 * n + m)"
    using len28 lrest by simp
  have l2: "length (h28 @ le_bytes 4 (unat pb) @ rest) = 32 + (8 + 5 * n + m)"
    using len28 lrest by simp
  have "(ucast kMCodecHeaderBytes :: 32 word) + pb = of_nat (32 + (8 + 5 * n + m))"
    by (simp add: pb_def kMCodecHeaderBytes_def)
  then have ex: "unat ((ucast kMCodecHeaderBytes :: 32 word) + pb) = (32 + (8 + 5 * n + m)) mod 2 ^ 32"
    by (simp only: unat_of_nat32)
  have unfolded: "write_container img lsa bs quality symbols table huff =
      (if es = [] then Some (Inl (runtime_error ''encode: no used symbols for Huffman table''))
       else if 32 + (8 + 5 * n + m) \<noteq> (32 + (8 + 5 * n + m)) mod 2 ^ 32
       then Some (Inl (runtime_error ''encode: buffer size mismatch after patching payload_bytes''))
       else Some (Inr (h28 @ le_bytes 4 (unat pb) @ rest)))"
    unfolding write_container_def Let_def es0 option.case es0s
      es_def [symmetric] n_def [symmetric] m_def [symmetric] pb_def [symmetric] w patched
      l1 l2 ex
    by (simp add: kMCodecHeaderBytes_def)
  show ?thesis
  proof (cases "2 ^ 32 \<le> 32 + (8 + 5 * n + m)")
    case big: True
    have "(32 + (8 + 5 * n + m)) mod 2 ^ 32 < (2 ^ 32 :: nat)"
      by (rule mod_less_divisor) simp
    with big have "32 + (8 + 5 * n + m) \<noteq> (32 + (8 + 5 * n + m)) mod 2 ^ 32" by linarith
    then show ?thesis using unfolded big False by (simp add: es_def n_def m_def)
  next
    case small': False
    then have small: "32 + (8 + 5 * n + m) < 2 ^ 32" by simp
    have "pb = of_nat (8 + 5 * n + m)" by (simp add: pb_def)
    then have upb: "unat pb = 8 + 5 * n + m"
      using small by (simp only: unat_of_nat32) simp
    have un: "unat (of_nat n :: 32 word) = n" using small by (simp only: unat_of_nat32) simp
    have sc: "le_bytes 4 (unat (of_nat (length symbols) :: 32 word)) = le_bytes 4 (length symbols)"
      by (simp only: unat_of_nat32 le_bytes_4_mod)
    have "h28 @ le_bytes 4 (unat pb) @ rest
        = container_bytes img lsa bs quality (length symbols) es huff"
      unfolding container_bytes_def h28_def rest_def upb un sc
        unat_word_of_int32 unat_word_of_int16
      by (simp add: n_def m_def)
    then show ?thesis using unfolded small False by (simp add: es_def n_def m_def)
  qed
qed


section \<open>Machine integers and floats on small values\<close>

lemma int32_id: "- 2147483648 \<le> x \<Longrightarrow> x < 2147483648 \<Longrightarrow> int32 x = x"
  unfolding int32_def by (simp add: sint_sbintrunc' signed_take_bit_int_eq_self)

lemma cdiv_nonneg: "0 \<le> a \<Longrightarrow> 0 < b \<Longrightarrow> cdiv a b = a div b"
  by (cases "a = 0") (simp_all add: cdiv_def)

lemma fl32_zero [simp]: "fl32 0 = 0"
  by (simp add: fl32_def)

lemma round_away_zero [simp]: "round_away 0 = 0"
proof -
  have "\<lfloor>1 / 2 :: rat\<rfloor> = 0" by (rule floor_unique) simp_all
  then show ?thesis by (simp add: round_away_def)
qed

lemma quant_elem_zero: "quant_elem 0 inv_step = Inr 0"
  by (simp add: quant_elem_def)

lemma quantize_loop_zeros: "quantize_loop (replicate n 0) inv_step = Inr (replicate n 0)"
  by (induction n) (simp_all add: quant_elem_zero)

section \<open>The encoder on the image of constant 128\<close>

lemma map_upt_const: "(\<And>i. i < n \<Longrightarrow> f i = c) \<Longrightarrow> map f [0..<n] = replicate n c"
  by (rule nth_equalityI) simp_all

lemma grey_level_shift:
  "apply_level_shift grey_image = Inr (grey_image\<lparr>pixels := replicate 64 0, is_signed := True\<rparr>)"
  by (simp add: apply_level_shift_def grey_image_def int32_def)

lemma grey_grid:
  "make_grid 8 8 8 = Inr \<lparr>grid_block_size = 8, blocks_x = 1, blocks_y = 1, padded_w = 8, padded_h = 8\<rparr>"
  by (simp add: make_grid_def int32_id cdiv_nonneg)

lemma grey_tile:
  "tile_to_blocks (grey_image\<lparr>pixels := replicate 64 0, is_signed := True\<rparr>)
     \<lparr>grid_block_size = 8, blocks_x = 1, blocks_y = 1, padded_w = 8, padded_h = 8\<rparr>
   = Inr (replicate 64 0)"
proof -
  have "map (\<lambda>i. if i div 8 < 8 then replicate 64 (0::int) ! (i div 8 * 8 + i mod 8) else 0)
          [0..<64] = replicate 64 0"
    by (rule map_upt_const) auto
  then show ?thesis by (simp add: tile_to_blocks_def grey_image_def int32_id cong: if_cong)
qed

lemma zero_dct_quantize:
  "ebind (dct2d_blocks zero_block_ops (replicate 64 0) 8)
     (\<lambda>coeffs. quantize coeffs 8 quality) = Inr (replicate 64 0)"
proof -
  have "map (\<lambda>i. 0 :: rat) [0..<64] = replicate 64 0" by (rule map_upt_const) simp
  then show ?thesis
    by (simp add: dct2d_blocks_def quantize_def zero_block_ops_def quantize_loop_zeros)
qed

lemma pack_zero_block:
  "pack_rle_symbols [\<lparr>rle_value = 0, rle_run = 0\<rparr>, \<lparr>rle_value = 0, rle_run = 62\<rparr>] = [0, 4063232]"
  by (simp add: pack_rle_symbols_def pack_symbol_def)

lemma grey_symbol_stream:
  "encode_symbol_stream zero_block_ops grey_image 8 quality
   = Inr (grey_image\<lparr>pixels := replicate 64 0, is_signed := True\<rparr>, [0, 4063232])"
proof -
  have wh: "width (grey_image\<lparr>pixels := replicate 64 0, is_signed := True\<rparr>) = 8"
    "height (grey_image\<lparr>pixels := replicate 64 0, is_signed := True\<rparr>) = 8"
    by (simp_all add: grey_image_def)
  have dq: "ebind (dct2d_blocks zero_block_ops (replicate 64 0) 8) f
      = f (replicate 64 0)" for f :: "rat list \<Rightarrow> error + 'b"
  proof -
    have "map (\<lambda>i. 0 :: rat) [0..<64] = replicate 64 0" by (rule map_upt_const) simp
    then show ?thesis by (simp add: dct2d_blocks_def zero_block_ops_def)
  qed
  have q: "quantize (replicate 64 0) 8 quality = Inr (replicate 64 0)"
    by (simp add: quantize_def quantize_loop_zeros)
  show ?thesis
    unfolding encode_symbol_stream_def grey_level_shift ebind_Inr wh grey_grid grey_tile dq q
      zigzag_zero_block rle_encode_zero_block8 pack_zero_block
    by (rule refl)
qed

lemma two_symbol_frequencies:
  "build_symbol_frequencies [0, 4063232] = Inr [(0, 1), (4063232, 1)]"
  by (simp add: build_symbol_frequencies_def)


lemma leaves_loop:
  assumes "n < 2 ^ 32"
  shows "u32_for n (\<lambda>i pq. if freqs (unat i) = 0 then pq
                              else pq @ [HeapLeaf (freqs (unat i)) i]) 0 []
         = Some (map (\<lambda>k. HeapLeaf (freqs k) (of_nat k)) (filter (\<lambda>k. freqs k \<noteq> 0) [0..<n]))"
proof -
  have "(\<lambda>i pq. if freqs (unat i) = 0 then pq else pq @ [HeapLeaf (freqs (unat i)) i])
      = (\<lambda>(i :: 32 word) pq. if freqs (unat i) \<noteq> 0 then pq @ [HeapLeaf (freqs (unat i)) i] else pq)"
    by (intro ext) simp
  then show ?thesis
    using u32_for_collect [OF assms, where P = "\<lambda>k. freqs k \<noteq> 0"
        and g = "\<lambda>k i. HeapLeaf (freqs k) i"]
    by simp
qed

lemma two_symbol_leaves:
  "filter (\<lambda>k. ((\<lambda>i. 0 :: 32 word)(0 := 1, 4063232 := 1)) k \<noteq> 0) [0..<4063233] = [0, 4063232]"
  by (rule filter_upt_sparse) auto

lemma two_symbol_merge:
  "merge_loop [HeapLeaf 1 0, HeapLeaf 1 4063232]
   = [HeapInner 2 0 (HeapLeaf 1 0) (HeapLeaf 1 4063232)]"
  by code_simp

lemma build_canonical_table_unfold:
  assumes ne: "sym_freq \<noteq> []"
    and nz: "list_ex (\<lambda>(s, f). f \<noteq> 0) sym_freq"
    and acc: "accumulate_freqs sym_freq (\<lambda>i. 0) = Inr freqs"
    and mx: "fold (\<lambda>(s, f) m. if f = 0 then m else if m < s then s else m) sym_freq 0 = max_sym"
    and lt: "unat max_sym + 1 < 2 ^ 32"
    and pq: "map (\<lambda>k. HeapLeaf (freqs k) (of_nat k))
                 (filter (\<lambda>k. freqs k \<noteq> 0) [0..<unat max_sym + 1]) = pq"
  shows "build_canonical_table sym_freq =
     (if length pq = 1
      then Some (Inr (single_symbol_table (unat max_sym + 1) (hn_symbol (pq_top pq))))
      else Some (ebind (dfs_lens [(pq_top (merge_loop pq), 0)] []) (\<lambda>lens.
             build_table_entries
               \<lparr>enc_size = unat max_sym + 1, enc = (\<lambda>i. default_entry),
                decode_nodes = [new_node]\<rparr>
               (canonical_codes (sort_key (\<lambda>(s, l). (l, s)) lens)))))"
  unfolding build_canonical_table_def Let_def mx
  by (simp only: ne nz acc leaves_loop [OF lt] pq if_False if_True not_True_eq_False
      not_not sum.case option.case)

lemma two_symbol_canonical_table:
  "build_canonical_table [(0, 1), (4063232, 1)] = Some (Inr two_symbol_table)"
proof -
  have acc: "accumulate_freqs [(0, 1), (4063232, 1)] (\<lambda>i. 0)
      = Inr ((\<lambda>i. 0)(0 := 1, 4063232 := 1))"
    by simp
  have mx: "fold (\<lambda>(s, f) m. if f = 0 then m else if m < s then s else m)
      [(0 :: 32 word, 1 :: 32 word), (4063232, 1)] 0 = 4063232"
    by simp
  have pq: "map (\<lambda>k. HeapLeaf (((\<lambda>i. 0)(0 := 1, 4063232 := 1)) k) (of_nat k))
       (filter (\<lambda>k. ((\<lambda>i. 0 :: 32 word)(0 := 1, 4063232 := 1)) k \<noteq> 0)
               [0..<unat (4063232 :: 32 word) + 1])
      = [HeapLeaf 1 0, HeapLeaf 1 4063232]"
  proof -
    have n: "unat (4063232 :: 32 word) + 1 = 4063233" by simp
    show ?thesis unfolding n two_symbol_leaves by simp
  qed
  have top: "pq_top [HeapInner 2 0 (HeapLeaf 1 0) (HeapLeaf 1 4063232)]
      = HeapInner 2 0 (HeapLeaf 1 0) (HeapLeaf 1 4063232)"
    by (simp add: pq_top_def)
  have dfs: "dfs_lens [(HeapInner 2 0 (HeapLeaf 1 0) (HeapLeaf 1 4063232), 0)] []
      = Inr [(0, 1), (4063232, 1)]"
    by simp
  have srt: "sort_key (\<lambda>(s, l). (l, s)) [(0 :: 32 word, 1 :: 8 word), (4063232, 1)]
      = [(0, 1), (4063232, 1)]"
    by simp
  have canon: "canonical_codes [(0, 1), (4063232, 1)] = [(0, 0, 1), (4063232, 1, 1)]"
    by (simp add: canonical_codes_def)
  have tab: "build_table_entries
       \<lparr>enc_size = unat (4063232 :: 32 word) + 1, enc = (\<lambda>i. default_entry),
        decode_nodes = [new_node]\<rparr>
       [(0, 0, 1), (4063232, 1, 1)] = Inr two_symbol_table"
    by (simp add: trie_insert_def new_node_def two_symbol_table_def Let_def)
  have "build_canonical_table [(0, 1), (4063232, 1)] =
     (if length [HeapLeaf 1 0, HeapLeaf 1 (4063232 :: 32 word)] = 1
      then Some (Inr (single_symbol_table (unat (4063232 :: 32 word) + 1)
                        (hn_symbol (pq_top [HeapLeaf 1 0, HeapLeaf 1 4063232]))))
      else Some (ebind (dfs_lens [(pq_top (merge_loop [HeapLeaf 1 0, HeapLeaf 1 4063232]), 0)] [])
             (\<lambda>lens. build_table_entries
               \<lparr>enc_size = unat (4063232 :: 32 word) + 1, enc = (\<lambda>i. default_entry),
                decode_nodes = [new_node]\<rparr>
               (canonical_codes (sort_key (\<lambda>(s, l). (l, s)) lens)))))"
    by (rule build_canonical_table_unfold [OF _ _ acc mx _ pq]) simp_all
  also have "\<dots> = Some (Inr two_symbol_table)"
    unfolding two_symbol_merge top dfs ebind_Inr srt canon tab by simp
  finally show ?thesis .
qed

lemma two_symbol_bits:
  "encode_symbols two_symbol_table [0, 4063232] new_bit_writer
   = Inr \<lparr>bw_data = [], bw_cur = 1, bw_bit_pos = 2\<rparr>"
  by (simp add: two_symbol_table_def write_bits_def write_bit_def new_bit_writer_def)

lemma two_symbol_huff_encode:
  "huff_encode [0, 4063232] = Some (Inr (two_symbol_table, [0x40]))"
proof -
  have "huff_encode [0, 4063232]
      = Some (ebind (encode_symbols two_symbol_table [0, 4063232] new_bit_writer)
               (\<lambda>bw. Inr (two_symbol_table, bw_data (flush bw))))"
    by (simp add: huff_encode_def two_symbol_frequencies two_symbol_canonical_table
        del: encode_symbols.simps)
  then show ?thesis unfolding two_symbol_bits by (simp add: flush_def)
qed

lemma two_symbol_used_entries: "used_entries two_symbol_table = [(0, 1), (4063232, 1)]"
proof -
  have "filter (\<lambda>k. enc_valid (enc two_symbol_table k) \<and> 0 < enc_len (enc two_symbol_table k))
          [0..<4063233] = [0, 4063232]"
    by (rule filter_upt_sparse) (auto simp: two_symbol_table_def default_entry_def)
  then show ?thesis
    by (simp add: used_entries_def two_symbol_table_def)
qed

lemma grey_encode:
  assumes "0 \<le> q" "q < 256"
  shows "encode_to_mcodec zero_block_ops grey_image q = Some (Inr (grey_container (nat q)))"
proof -
  have chk: "channels grey_image = 1" "width grey_image = 8" "height grey_image = 8"
    "length (pixels grey_image) = 64" "\<not> is_signed grey_image"
    by (simp_all add: grey_image_def)
  have sz: "enc_size two_symbol_table = 4063233" by (simp add: two_symbol_table_def)
  have "encode_to_mcodec zero_block_ops grey_image q
      = write_container (grey_image\<lparr>pixels := replicate 64 0, is_signed := True\<rparr>)
          True 8 q [0, 4063232] two_symbol_table [0x40]"
    by (simp add: encode_to_mcodec_def chk grey_symbol_stream two_symbol_huff_encode)
  also have "\<dots> = Some (Inr (container_bytes
        (grey_image\<lparr>pixels := replicate 64 0, is_signed := True\<rparr>) True 8 q
        (length [0, 4063232 :: 32 word]) [(0, 1), (4063232, 1)] [0x40]))"
    unfolding write_container_eq sz two_symbol_used_entries by simp
  also have "container_bytes
        (grey_image\<lparr>pixels := replicate 64 0, is_signed := True\<rparr>) True 8 q
        (length [0, 4063232 :: 32 word]) [(0, 1), (4063232, 1)] [0x40] = grey_container (nat q)"
    using assms
    by (simp add: container_bytes_def grey_container_def grey_image_def le_bytes_2 le_bytes_4
        drop_bit_eq_div)
  finally show ?thesis .
qed


section \<open>Layout of the container\<close>

lemma apply_level_shift_success:
  assumes "apply_level_shift im = Inr img" and "pixels im \<noteq> []"
  shows "is_signed img" "width img = width im" "height img = height im"
    "channels img = channels im" "bits_allocated img = bits_allocated im"
    "bits_stored img = bits_stored im" "1 \<le> bits_stored im" "bits_stored im \<le> 16"
  using assms by (auto simp: apply_level_shift_def Let_def split: if_splits)

lemma encode_symbol_stream_shift:
  assumes "encode_symbol_stream ops im bs quality = Inr (img, symbols)"
  shows "apply_level_shift im = Inr img"
  using assms unfolding encode_symbol_stream_def
  by (auto simp: ebind_Inr_iff)

lemma encode_symbol_stream_nonempty:
  assumes "encode_symbol_stream ops im bs quality = Inr (img, symbols)"
  shows "pixels im \<noteq> []"
proof
  assume empty: "pixels im = []"
  then have "apply_level_shift im = Inr im" by (simp add: apply_level_shift_def)
  then have "img = im" using encode_symbol_stream_shift [OF assms] by simp
  moreover from assms obtain grid blocks where "tile_to_blocks img grid = Inr blocks"
    unfolding encode_symbol_stream_def by (auto simp: ebind_Inr_iff)
  then have "0 < width img" "0 < height img"
    "\<not> int (length (pixels img)) < width img * height img"
    by (auto simp: tile_to_blocks_def split: if_splits)
  ultimately show False using empty by simp
qed

lemma encode_success_cases:
  assumes "encode_to_mcodec ops im quality = Some (Inr bytes)"
  shows "\<exists>img symbols table huff.
      channels im = 1 \<and> 0 < width im \<and> 0 < height im
    \<and> pixels im \<noteq> []
    \<and> encode_symbol_stream ops im 8 quality = Inr (img, symbols)
    \<and> huff_encode symbols = Some (Inr (table, huff))
    \<and> used_entries table \<noteq> []
    \<and> 32 + (8 + 5 * length (used_entries table) + length huff) < 2 ^ 32
    \<and> bytes = container_bytes img (\<not> is_signed im) 8 quality (length symbols)
                (used_entries table) huff"
proof -
  from assms have chk: "channels im = 1" "0 < width im" "0 < height im"
    "int32 (int (length (pixels im))) = int32 (width im * height im)"
    by (auto simp: encode_to_mcodec_def Let_def split: if_splits)
  from assms chk obtain img symbols where
    st: "encode_symbol_stream ops im 8 quality = Inr (img, symbols)"
    by (auto simp: encode_to_mcodec_def Let_def split: sum.splits)
  from assms chk st obtain table huff where
    he: "huff_encode symbols = Some (Inr (table, huff))"
    by (auto simp: encode_to_mcodec_def Let_def split: option.splits sum.splits)
  from assms chk st he have
    wc: "write_container img (\<not> is_signed im) 8 quality symbols table huff = Some (Inr bytes)"
    by (simp add: encode_to_mcodec_def Let_def)
  then have "used_entries table \<noteq> []
    \<and> 32 + (8 + 5 * length (used_entries table) + length huff) < 2 ^ 32
    \<and> bytes = container_bytes img (\<not> is_signed im) 8 quality (length symbols)
                (used_entries table) huff"
    unfolding write_container_eq by (auto split: if_splits)
  with chk st he encode_symbol_stream_nonempty [OF st] show ?thesis by blast
qed

lemma le_bytes_4_nat: "0 \<le> x \<Longrightarrow> le_bytes 4 (nat (x mod 2 ^ 32)) = le_bytes 4 (nat x)"
  using le_bytes_4_mod [of "nat x"] by (simp add: nat_mod_distrib)

text \<open>
  C5. Every byte buffer that \<open>encode_to_mcodec\<close> returns is the 32-byte header
  followed by the payload section. The header is the magic \<open>MCDC\<close>, version 1,
  header size 32, then width, height, channels, bits allocated, bits stored, the
  signedness byte, the flags byte, block size 8, quality and the payload length, each
  little-endian at its documented offset (the byte at offset 22 is that of the image
  after the level shift, see C6). The payload is the number of symbols, the number of
  used symbols, one (symbol: u32, length: u8) entry per used symbol of the Huffman
  table, and the Huffman-coded bytes. The u32 at offset 28 is the exact payload length
  \<open>8 + 5 * used + huffman bytes\<close>, and the buffer is 32 bytes longer.
\<close>

theorem encode_container_layout:
  assumes "encode_to_mcodec ops im quality = Some (Inr bytes)"
  shows "\<exists>img symbols table huffman_bytes.
       encode_symbol_stream ops im 8 quality = Inr (img, symbols)
     \<and> huff_encode symbols = Some (Inr (table, huffman_bytes))
     \<and> bytes = [0x4D, 0x43, 0x44, 0x43] @ le_bytes 2 1 @ le_bytes 2 32
         @ le_bytes 4 (nat (width im)) @ le_bytes 4 (nat (height im))
         @ le_bytes 2 1 @ le_bytes 2 (nat (bits_allocated im mod 2 ^ 16))
         @ le_bytes 2 (nat (bits_stored im))
         @ [1] @ [if is_signed im then 0 else 1]
         @ le_bytes 2 8 @ le_bytes 2 (nat (quality mod 2 ^ 16))
         @ le_bytes 4 (8 + 5 * length (used_entries table) + length huffman_bytes)
         @ le_bytes 4 (length symbols)
         @ le_bytes 4 (length (used_entries table))
         @ concat (map (\<lambda>(s, l). le_bytes 4 (unat s) @ [l]) (used_entries table))
         @ huffman_bytes
     \<and> used_entries table \<noteq> []
     \<and> 8 + 5 * length (used_entries table) + length huffman_bytes < 2 ^ 32
     \<and> length bytes = 32 + (8 + 5 * length (used_entries table) + length huffman_bytes)"
proof -
  from encode_success_cases [OF assms] obtain img symbols table huff where
    chk: "channels im = 1" "0 < width im" "0 < height im"
      "pixels im \<noteq> []"
    and st: "encode_symbol_stream ops im 8 quality = Inr (img, symbols)"
    and he: "huff_encode symbols = Some (Inr (table, huff))"
    and ne: "used_entries table \<noteq> []"
    and small: "32 + (8 + 5 * length (used_entries table) + length huff) < 2 ^ 32"
    and bytes: "bytes = container_bytes img (\<not> is_signed im) 8 quality (length symbols)
                (used_entries table) huff"
    by blast
  have "pixels im \<noteq> []" using chk by simp
  note f = apply_level_shift_success [OF encode_symbol_stream_shift [OF st] this]
  have bst: "nat (bits_stored im mod 2 ^ 16) = nat (bits_stored im)"
    using f(7,8) by simp
  have b: "bytes = [0x4D, 0x43, 0x44, 0x43] @ le_bytes 2 1 @ le_bytes 2 32
         @ le_bytes 4 (nat (width im)) @ le_bytes 4 (nat (height im))
         @ le_bytes 2 1 @ le_bytes 2 (nat (bits_allocated im mod 2 ^ 16))
         @ le_bytes 2 (nat (bits_stored im))
         @ [1] @ [if is_signed im then 0 else 1]
         @ le_bytes 2 8 @ le_bytes 2 (nat (quality mod 2 ^ 16))
         @ le_bytes 4 (8 + 5 * length (used_entries table) + length huff)
         @ le_bytes 4 (length symbols)
         @ le_bytes 4 (length (used_entries table))
         @ concat (map (\<lambda>(s, l). le_bytes 4 (unat s) @ [l]) (used_entries table))
         @ huff"
  proof -
    have w4: "le_bytes 4 (nat (width img mod 2 ^ 32)) = le_bytes 4 (nat (width im))"
      unfolding f(2) using chk(2) by (intro le_bytes_4_nat) simp
    have h4: "le_bytes 4 (nat (height img mod 2 ^ 32)) = le_bytes 4 (nat (height im))"
      unfolding f(3) using chk(3) by (intro le_bytes_4_nat) simp
    have sg: "(if is_signed img then 1 else 0 :: 8 word) = 1" using f(1) by simp
    show ?thesis
      unfolding bytes container_bytes_def w4 h4 sg f(4-6) chk(1) bst
      by simp
  qed
  have len: "length bytes = 32 + (8 + 5 * length (used_entries table) + length huff)"
    unfolding b
    by (simp add: length_concat comp_def case_prod_unfold sum_list_triv)
  show ?thesis using st he b ne small len by (intro exI conjI) simp_all
qed


theorem encode_container_layout_witness:
  "encode_to_mcodec zero_block_ops grey_image 50 = Some (Inr (grey_container 50))
   \<and> (\<exists>img symbols table huffman_bytes.
       encode_symbol_stream zero_block_ops grey_image 8 50 = Inr (img, symbols)
     \<and> huff_encode symbols = Some (Inr (table, huffman_bytes))
     \<and> grey_container 50 = [0x4D, 0x43, 0x44, 0x43] @ le_bytes 2 1 @ le_bytes 2 32
         @ le_bytes 4 (nat (width grey_image)) @ le_bytes 4 (nat (height grey_image))
         @ le_bytes 2 1 @ le_bytes 2 (nat (bits_allocated grey_image mod 2 ^ 16))
         @ le_bytes 2 (nat (bits_stored grey_image))
         @ [1] @ [if is_signed grey_image then 0 else 1]
         @ le_bytes 2 8 @ le_bytes 2 (nat (50 mod 2 ^ 16))
         @ le_bytes 4 (8 + 5 * length (used_entries table) + length huffman_bytes)
         @ le_bytes 4 (length symbols)
         @ le_bytes 4 (length (used_entries table))
         @ concat (map (\<lambda>(s, l). le_bytes 4 (unat s) @ [l]) (used_entries table))
         @ huffman_bytes
     \<and> used_entries table \<noteq> []
     \<and> 8 + 5 * length (used_entries table) + length huffman_bytes < 2 ^ 32
     \<and> length (grey_container 50)
         = 32 + (8 + 5 * length (used_entries table) + length huffman_bytes))"
proof -
  have e: "encode_to_mcodec zero_block_ops grey_image 50 = Some (Inr (grey_container 50))"
    using grey_encode [of 50] by simp
  show ?thesis
    using e encode_container_layout [OF e] by (intro conjI)
qed

text \<open>
  C6. The byte at offset 22 of every container the encoder returns is 1, whatever the
  signedness of the input image: \<open>write_bitstream_header\<close> is given the working copy,
  which \<open>apply_level_shift\<close> has marked signed (or which was signed already). The
  signedness of the input is recorded in the flags byte at offset 23 only, as the
  level-shift flag.
\<close>

theorem encode_is_signed_byte:
  assumes "encode_to_mcodec ops im quality = Some (Inr bytes)"
  shows "bytes ! 22 = 1 \<and> bytes ! 23 = (if is_signed im then 0 else 1)"
proof -
  from encode_success_cases [OF assms] obtain img symbols table huff where
    chk: "0 < width im" "0 < height im"
      "pixels im \<noteq> []"
    and st: "encode_symbol_stream ops im 8 quality = Inr (img, symbols)"
    and bytes: "bytes = container_bytes img (\<not> is_signed im) 8 quality (length symbols)
                (used_entries table) huff"
    by blast
  have "pixels im \<noteq> []" using chk by simp
  note f = apply_level_shift_success [OF encode_symbol_stream_shift [OF st] this]
  show ?thesis
    unfolding bytes container_bytes_def using f(1)
    by (simp add: le_bytes_2 le_bytes_4 nth_append)
qed

theorem encode_is_signed_byte_witness:
  "\<not> is_signed grey_image
   \<and> encode_to_mcodec zero_block_ops grey_image 50 = Some (Inr (grey_container 50))
   \<and> grey_container 50 ! 22 = 1 \<and> grey_container 50 ! 23 = 1"
proof -
  have e: "encode_to_mcodec zero_block_ops grey_image 50 = Some (Inr (grey_container 50))"
    using grey_encode [of 50] by simp
  show ?thesis
    using e encode_is_signed_byte [OF e] by (simp add: grey_image_def)
qed


section \<open>The decoder and the inverse level shift\<close>

lemma untile_success:
  assumes "untile_from_blocks im0 grid blocks = Inr im"
  shows "pixels im \<noteq> []" "bits_stored im = bits_stored im0" "is_signed im = is_signed im0"
proof -
  from assms have pos: "0 < width im0" "0 < height im0"
    and im: "im = im0\<lparr>pixels := map (\<lambda>i. blocks ! ((i div nat (width im0)) * nat (padded_w grid)
                + i mod nat (width im0))) [0..<nat (width im0 * height im0)]\<rparr>"
    by (auto simp: untile_from_blocks_def Let_def split: if_splits)
  from pos have "0 < width im0 * height im0" by simp
  then show "pixels im \<noteq> []" unfolding im by simp
  show "bits_stored im = bits_stored im0" "is_signed im = is_signed im0"
    unfolding im by simp_all
qed

lemma inverse_level_shift_range:
  assumes "inverse_level_shift im1 = Inr im" and "pixels im1 \<noteq> []"
  shows "\<not> is_signed im" "bits_stored im = bits_stored im1"
    "1 \<le> bits_stored im" "bits_stored im \<le> 16"
    "\<forall>p \<in> set (pixels im). 0 \<le> p \<and> p \<le> 2 ^ nat (bits_stored im) - 1"
  using assms
  by (auto simp: inverse_level_shift_def Let_def clamp_i32_def split: if_splits)

lemma decode_image_range:
  assumes "decode_image hdr grid blocks = Inr im" and "hdr_flags hdr AND 1 \<noteq> 0"
  shows "\<not> is_signed im \<and> 1 \<le> bits_stored im \<and> bits_stored im \<le> 16
       \<and> (\<forall>p \<in> set (pixels im). 0 \<le> p \<and> p \<le> 2 ^ nat (bits_stored im) - 1)"
proof -
  from assms obtain im0 im1 where
    u: "untile_from_blocks im0 grid blocks = Inr im1"
    and s: "inverse_level_shift im1 = Inr im"
    unfolding decode_image_def Let_def
    by (auto simp: ebind_Inr_iff split: if_splits)
  show ?thesis
    using inverse_level_shift_range [OF s untile_success(1) [OF u]] by simp
qed

lemma read_header_flags:
  assumes "read_bitstream_header bytes = Inr hdr"
  shows "hdr_flags hdr = bytes ! 23"
  using assms unfolding read_bitstream_header_def Let_def
  by (auto simp: ebind_Inr_iff split: if_splits)

lemma decode_success_image:
  assumes "decode_from_mcodec ops bytes = Inr im"
  shows "\<exists>hdr grid blocks. read_bitstream_header bytes = Inr hdr
           \<and> decode_image hdr grid blocks = Inr im"
  using assms unfolding decode_from_mcodec_def Let_def
  by (auto simp: ebind_Inr_iff split: if_splits prod.splits)

text \<open>
  C10. An image that \<open>decode_from_mcodec\<close> returns for a container whose flags byte
  (offset 23) has bit 0 set is unsigned, its \<open>bits_stored\<close> lies in 1..16, and every
  pixel lies in \<open>0 .. 2^bits_stored - 1\<close>: the inverse level shift clamps each pixel.
\<close>

theorem decode_level_shift_range:
  assumes "decode_from_mcodec ops bytes = Inr im" and "(bytes ! 23) AND 1 \<noteq> 0"
  shows "\<not> is_signed im
       \<and> (\<forall>p \<in> set (pixels im). 0 \<le> p \<and> p \<le> 2 ^ nat (bits_stored im) - 1)"
proof -
  from decode_success_image [OF assms(1)] obtain hdr grid blocks where
    h: "read_bitstream_header bytes = Inr hdr" and d: "decode_image hdr grid blocks = Inr im"
    by blast
  have "hdr_flags hdr AND 1 \<noteq> 0" using read_header_flags [OF h] assms(2) by simp
  from decode_image_range [OF d this] show ?thesis by simp
qed


lemma grey_header:
  "read_bitstream_header (grey_container 50)
   = Inr \<lparr>hdr_magic = [0x4D, 0x43, 0x44, 0x43], hdr_version = 1, hdr_header_bytes = 32,
          hdr_width = 8, hdr_height = 8, hdr_channels = 1, hdr_bits_allocated = 8,
          hdr_bits_stored = 8, hdr_is_signed = 1, hdr_flags = 1, hdr_block_size = 8,
          hdr_quality = 50, hdr_payload_bytes = 19\<rparr>"
  by (simp add: read_bitstream_header_def grey_container_def kMCodecHeaderBytes_def
      read_u16_le_at_def read_u32_le_at_def)

lemma two_symbol_from_lengths:
  "build_table_from_code_lengths [(0, 1), (4063232, 1)] = Inr two_symbol_table"
  by (simp add: build_table_from_code_lengths_def canonical_codes_def trie_insert_def
      new_node_def two_symbol_table_def Let_def)

lemma two_symbol_huff_decode:
  "huff_decode [0x40] two_symbol_table 2 = Inr [0, 4063232]"
proof -
  have "decode_symbols (decode_nodes two_symbol_table) (Suc (Suc 0)) (new_bit_reader [0x40]) []
      = Inr [0, 4063232]"
    by (simp add: two_symbol_table_def new_bit_reader_def read_bit_def Let_def)
  then show ?thesis by (simp add: huff_decode_def numeral_2_eq_2)
qed

lemma unpack_zero_block:
  "unpack_rle_symbols [0, 4063232]
   = [\<lparr>rle_value = 0, rle_run = 0\<rparr>, \<lparr>rle_value = 0, rle_run = 62\<rparr>]"
  by (simp add: unpack_rle_symbols_def unpack_symbol_def)

lemma rle_decode_zero_block:
  "rle_decode_zeros [\<lparr>rle_value = 0, rle_run = 0\<rparr>, \<lparr>rle_value = 0, rle_run = 62\<rparr>] 8 64
   = Inr (replicate 64 0)"
proof -
  have "(0 :: 16 word) # replicate 62 0 @ [0] = replicate 64 0"
    by (simp add: replicate_append_same numeral_eq_Suc)
  then show ?thesis by (simp add: rle_decode_zeros_def)
qed


lemma grey_payload:
  "take (unat ((ucast (32 :: 16 word) :: 32 word) + 19) - unat (32 :: 16 word))
        (drop (unat (32 :: 16 word)) (grey_container 50))
   = [2, 0, 0, 0, 2, 0, 0, 0, 0, 0, 0, 0, 1, 0, 0, 0x3E, 0, 1, 0x40]"
  by (simp add: grey_container_def)

lemma grey_table_section:
  "read_u32_le [2, 0, 0, 0, 2, 0, 0, 0, 0, 0, 0, 0, 1, 0, 0, 0x3E, 0, 1, 0x40]
     = Inr (2, [2, 0, 0, 0, 0, 0, 0, 0, 1, 0, 0, 0x3E, 0, 1, 0x40])"
  "read_u32_le [2, 0, 0, 0, 0, 0, 0, 0, 1, 0, 0, 0x3E, 0, 1, 0x40]
     = Inr (2, [0, 0, 0, 0, 1, 0, 0, 0x3E, 0, 1, 0x40])"
  "read_entries (Suc (Suc 0)) [0, 0, 0, 0, 1, 0, 0, 0x3E, 0, 1, 0x40] []
     = Inr ([(0, 1), (4063232, 1)], [0x40])"
  by (simp_all add: read_u32_le_def read_u16_le_def read_u8_def)

lemma grey_untile:
  "untile_from_blocks
      \<lparr>width = 8, height = 8, channels = 1, bits_stored = 8, bits_allocated = 8,
       is_signed = True, pixel_type = S16, pixels = []\<rparr>
      \<lparr>grid_block_size = 8, blocks_x = 1, blocks_y = 1, padded_w = 8, padded_h = 8\<rparr>
      (replicate 64 0)
   = Inr \<lparr>width = 8, height = 8, channels = 1, bits_stored = 8, bits_allocated = 8,
          is_signed = True, pixel_type = S16, pixels = replicate 64 0\<rparr>"
proof -
  have m: "map (\<lambda>i. replicate 64 (0 :: int) ! (i div 8 * 8 + i mod 8)) [0..<64] = replicate 64 0"
    by (rule map_upt_const) simp
  have m': "map ((!) (replicate 64 (0 :: int))) [0..<64] = replicate 64 0"
    by (rule map_upt_const) simp
  show ?thesis
    unfolding untile_from_blocks_def by (simp add: m m' int32_id)
qed

lemma grey_inverse_shift:
  "inverse_level_shift
      \<lparr>width = 8, height = 8, channels = 1, bits_stored = 8, bits_allocated = 8,
       is_signed = True, pixel_type = S16, pixels = replicate 64 0\<rparr>
   = Inr grey_decoded"
  by (simp add: inverse_level_shift_def clamp_i32_def int32_def grey_decoded_def)

lemma grey_decode_image:
  "decode_image \<lparr>hdr_magic = [0x4D, 0x43, 0x44, 0x43], hdr_version = 1, hdr_header_bytes = 32,
          hdr_width = 8, hdr_height = 8, hdr_channels = 1, hdr_bits_allocated = 8,
          hdr_bits_stored = 8, hdr_is_signed = 1, hdr_flags = 1, hdr_block_size = 8,
          hdr_quality = 50, hdr_payload_bytes = 19\<rparr>
      \<lparr>grid_block_size = 8, blocks_x = 1, blocks_y = 1, padded_w = 8, padded_h = 8\<rparr>
      (replicate 64 0) = Inr grey_decoded"
proof -
  have im0: "\<lparr>width = sint (8 :: 32 word), height = sint (8 :: 32 word),
        channels = uint (1 :: 16 word), bits_stored = uint (8 :: 16 word),
        bits_allocated = uint (8 :: 16 word), is_signed = ((1 :: 8 word) \<noteq> 0),
        pixel_type = (if (1 :: 8 word) \<noteq> 0 then S16
                      else if uint (8 :: 16 word) \<le> 8 then U8 else U16),
        pixels = []\<rparr>
      = \<lparr>width = 8, height = 8, channels = 1, bits_stored = 8, bits_allocated = 8,
         is_signed = True, pixel_type = S16, pixels = []\<rparr>"
    by simp
  show ?thesis
    unfolding decode_image_def Let_def MCodecHeader.simps im0 grey_untile ebind_Inr
    by (simp add: grey_inverse_shift grey_decoded_def int32_id)
qed

lemma grey_decode:
  "decode_from_mcodec zero_block_ops (grey_container 50) = Inr grey_decoded"
proof -
  have len: "length (grey_container 50) = 51" by (simp add: grey_container_def)
  have dq: "ebind (dequantize (replicate 64 0) 8 q) f
      = f (replicate 64 0)" for f :: "rat list \<Rightarrow> error + 'b" and q
    by (simp add: dequantize_def)
  have idct: "idct2d_blocks zero_block_ops (replicate 64 0) 8 = Inr (replicate 64 0)"
  proof -
    have "map (\<lambda>i. 0 :: int) [0..<64] = replicate 64 0" by (rule map_upt_const) simp
    then show ?thesis by (simp add: idct2d_blocks_def zero_block_ops_def)
  qed
  have rb: "read_bytes [0x40 :: 8 word] (length [0x40 :: 8 word]) = Inr ([0x40], [])"
    by (simp add: read_bytes_def)
  have two: "unat (2 :: 32 word) = Suc (Suc 0)" by simp
  show ?thesis
    unfolding decode_from_mcodec_def grey_header ebind_Inr Let_def
    apply (simp only: MCodecHeader.simps grey_payload grey_table_section prod.case ebind_Inr
        two rb two_symbol_from_lengths)
    apply (simp add: len kMCodecHeaderBytes_def two_symbol_huff_decode [unfolded numeral_2_eq_2]
        unpack_zero_block grey_grid rle_decode_zero_block inverse_zigzag_zero_block dq idct
        grey_decode_image int32_id del: read_entries.simps)
    done
qed

theorem decode_level_shift_range_witness:
  "decode_from_mcodec zero_block_ops (grey_container 50) = Inr grey_decoded
   \<and> (grey_container 50 ! 23) AND 1 \<noteq> 0
   \<and> \<not> is_signed grey_decoded
   \<and> list_all (\<lambda>p. 0 \<le> p \<and> p \<le> 2 ^ nat (bits_stored grey_decoded) - 1)
        (pixels grey_decoded)"
proof -
  have f: "(grey_container 50 ! 23) AND 1 \<noteq> 0" by (simp add: grey_container_def)
  show ?thesis
    using grey_decode f decode_level_shift_range [OF grey_decode f]
    unfolding list_all_iff by (intro conjI) simp_all
qed

section \<open>Bits written and read\<close>








lemma length_byte_bits [simp]: "length (byte_bits b) = 8"
  by (simp add: byte_bits_def)

lemma byte_bits_nth: "p < 8 \<Longrightarrow> byte_bits b ! p = bit b (7 - p)"
  by (simp add: byte_bits_def rev_nth)

lemma br_bits_new: "br_bits (new_bit_reader buf) = concat (map byte_bits buf)"
  by (cases buf) (simp_all add: br_bits_def new_bit_reader_def drop_Suc)

lemma read_bit_empty:
  assumes "br_bits r = []" and "br_bit_pos r < 8"
  shows "read_bit r = Inl (runtime_error ''BitReader: out of data'')"
proof -
  have "\<not> br_byte_idx r < length (br_data r)"
  proof
    assume "br_byte_idx r < length (br_data r)"
    then have "drop (br_bit_pos r) (byte_bits (br_data r ! br_byte_idx r)) = []"
      using assms(1) by (simp add: br_bits_def)
    then show False using assms(2) by simp
  qed
  then show ?thesis by (simp add: read_bit_def)
qed

lemma read_bit_Cons:
  assumes "br_bits r = b # bs" and "br_bit_pos r < 8"
  shows "\<exists>r'. read_bit r = Inr (b, r') \<and> br_bits r' = bs \<and> br_bit_pos r' < 8
              \<and> br_data r' = br_data r"
proof -
  let ?i = "br_byte_idx r" and ?p = "br_bit_pos r" and ?d = "br_data r"
  have idx: "?i < length ?d" using assms(1) by (auto simp: br_bits_def split: if_splits)
  let ?byte = "?d ! ?i"
  have bits: "drop ?p (byte_bits ?byte) @ concat (map byte_bits (drop (Suc ?i) ?d)) = b # bs"
    using assms(1) idx by (simp add: br_bits_def)
  have dr: "drop ?p (byte_bits ?byte) = byte_bits ?byte ! ?p # drop (Suc ?p) (byte_bits ?byte)"
    using assms(2) by (simp add: Cons_nth_drop_Suc)
  have b: "b = bit ?byte (7 - ?p)"
    and bs: "bs = drop (Suc ?p) (byte_bits ?byte) @ concat (map byte_bits (drop (Suc ?i) ?d))"
    using bits dr byte_bits_nth [OF assms(2), of ?byte] by simp_all
  have bit1: "(drop_bit (7 - ?p) ?byte AND 1 \<noteq> 0) = bit ?byte (7 - ?p)"
    by (simp add: bit_iff_odd_drop_bit and_one_eq mod_2_eq_odd)
  show ?thesis
  proof (cases "?p + 1 = 8")
    case True
    let ?r' = "r\<lparr>br_bit_pos := 0, br_byte_idx := ?i + 1\<rparr>"
    have rd: "read_bit r = Inr (b, ?r')"
      using idx assms(2) True b bit1 by (simp add: read_bit_def Let_def)
    have "drop (Suc ?p) (byte_bits ?byte) = []" using True by simp
    then have "bs = concat (map byte_bits (drop (Suc ?i) ?d))" using bs by simp
    also have "\<dots> = br_bits ?r'"
      by (cases "Suc ?i < length ?d")
         (simp_all add: br_bits_def Cons_nth_drop_Suc [symmetric])
    finally show ?thesis using rd by auto
  next
    case False
    let ?r' = "r\<lparr>br_bit_pos := ?p + 1\<rparr>"
    have rd: "read_bit r = Inr (b, ?r')"
      using idx assms(2) False b bit1 by (simp add: read_bit_def Let_def)
    have "br_bits ?r' = bs" using idx bs by (simp add: br_bits_def)
    then show ?thesis using rd False assms(2) by auto
  qed
qed

lemma decode_symbol_trie:
  "trie_has nodes k c v \<Longrightarrow> br_bit_pos r < 8 \<Longrightarrow> br_bits r = c @ rest \<Longrightarrow>
   \<exists>r'. decode_symbol nodes k r = Inr (word_of_int v, r') \<and> br_bits r' = rest
        \<and> br_bit_pos r' < 8 \<and> br_data r' = br_data r"
proof (induction c arbitrary: k r)
  case Nil
  then show ?case by (subst decode_symbol.simps) (auto simp: Let_def)
next
  case (Cons b bs)
  from Cons.prems(1) have k: "0 \<le> k" "k < int (length nodes)"
    and nosym: "node_symbol (nodes ! nat k) = - 1"
    and child: "(if b then node_right (nodes ! nat k) else node_left (nodes ! nat k)) \<noteq> - 1"
    and sub: "trie_has nodes (if b then node_right (nodes ! nat k) else node_left (nodes ! nat k)) bs v"
    by simp_all
  from read_bit_Cons [of r b "bs @ rest"] Cons.prems(2,3) obtain r1 where
    rd: "read_bit r = Inr (b, r1)" and r1: "br_bits r1 = bs @ rest" "br_bit_pos r1 < 8"
      "br_data r1 = br_data r"
    by auto
  from Cons.IH [OF sub r1(2) r1(1)] obtain r' where
    "decode_symbol nodes (if b then node_right (nodes ! nat k) else node_left (nodes ! nat k)) r1
       = Inr (word_of_int v, r')"
    "br_bits r' = rest" "br_bit_pos r' < 8" "br_data r' = br_data r1"
    by blast
  then show ?case
    using k nosym child rd r1(3)
    by (subst decode_symbol.simps) (auto simp: Let_def)
qed

lemma decode_symbols_codes:
  assumes "\<And>s. s \<in> set symbols \<Longrightarrow> trie_has nodes 0 (cw s) (sint s)"
    and "br_bit_pos r < 8"
    and "br_bits r = concat (map cw symbols) @ rest"
  shows "decode_symbols nodes (length symbols) r out = Inr (out @ symbols)"
  using assms
proof (induction symbols arbitrary: r out)
  case Nil
  then show ?case by simp
next
  case (Cons s ss)
  have "trie_has nodes 0 (cw s) (sint s)" using Cons.prems(1) by simp
  from decode_symbol_trie [OF this Cons.prems(2), of "concat (map cw ss) @ rest"] Cons.prems(3)
  obtain r' where d: "decode_symbol nodes 0 r = Inr (word_of_int (sint s), r')"
    and r': "br_bits r' = concat (map cw ss) @ rest" "br_bit_pos r' < 8"
    by auto
  have "decode_symbols nodes (length ss) r' (out @ [s]) = Inr ((out @ [s]) @ ss)"
    using Cons.prems(1) r' by (intro Cons.IH) simp_all
  then show ?case using d by simp
qed

section \<open>Round trip through a Huffman table\<close>



section \<open>The single-symbol table\<close>

lemma unat32_bound: "unat (c :: 32 word) < 4294967296"
  using unsigned_less [of c] by simp

lemma unat32_max: "(c :: 32 word) \<noteq> 0xFFFFFFFF \<Longrightarrow> unat c \<noteq> 4294967295"
proof
  assume "c \<noteq> 0xFFFFFFFF" and "unat c = 4294967295"
  then have "word_of_nat (unat c) = (word_of_nat 4294967295 :: 32 word)" by simp
  then have "c = 0xFFFFFFFF" by simp
  then show False using \<open>c \<noteq> 0xFFFFFFFF\<close> by simp
qed

lemma count_symbols_replicate:
  "count_symbols (replicate k s) [(s, c)] =
     (if unat c + k \<le> 4294967295 then Inr [(s, c + of_nat k)]
      else Inl (runtime_error ''huffman: frequency overflow''))"
proof (induction k arbitrary: c)
  case 0
  show ?case using unat32_bound [of c] by simp
next
  case (Suc k)
  show ?case
  proof (cases "c = 0xFFFFFFFF")
    case True
    then show ?thesis by simp
  next
    case False
    then have "unat (c + 1) = unat c + 1"
      using unat32_max [of c] unat32_bound [of c] by (simp add: unat_word_ariths)
    then show ?thesis using False Suc.IH [of "c + 1"] by (simp add: add.assoc add.commute)
  qed
qed

lemma single_symbol_frequencies:
  assumes "0 < n"
  shows "build_symbol_frequencies (replicate n s) =
     (if n \<le> 4294967295 then Inr [(s, of_nat n)]
      else Inl (runtime_error ''huffman: frequency overflow''))"
proof -
  obtain k where n: "n = Suc k" using assms by (cases n) auto
  have "1 + word_of_nat k = (word_of_nat (Suc k) :: 32 word)" by simp
  then show ?thesis
    unfolding n build_symbol_frequencies_def
    by (simp add: count_symbols_replicate del: of_nat_Suc)
qed


lemma single_symbol_canonical_table:
  assumes "f \<noteq> 0" and "s \<noteq> 0xFFFFFFFF"
  shows "build_canonical_table [(s, f)] = Some (Inr (single_symbol_table (unat s + 1) s))"
proof -
  have acc: "accumulate_freqs [(s, f)] (\<lambda>i. 0) = Inr ((\<lambda>i. 0)(unat s := f))"
    using assms(1) unat32_bound [of f] by simp
  have mx: "fold (\<lambda>(s, f) m. if f = 0 then m else if m < s then s else m) [(s, f)] 0 = s"
    using assms(1) by (auto simp: word_neq_0_conv not_less)
  have lt: "unat s + 1 < 2 ^ 32"
    using unat32_max [OF assms(2)] unat32_bound [of s] by simp
  have flt: "filter (\<lambda>k. ((\<lambda>i. 0 :: 32 word)(unat s := f)) k \<noteq> 0) [0..<unat s + 1] = [unat s]"
    using assms(1) by (intro filter_upt_sparse) auto
  have pq: "map (\<lambda>k. HeapLeaf (((\<lambda>i. 0)(unat s := f)) k) (of_nat k))
       (filter (\<lambda>k. ((\<lambda>i. 0 :: 32 word)(unat s := f)) k \<noteq> 0) [0..<unat s + 1])
      = [HeapLeaf f s]"
    unfolding flt by simp
  show ?thesis
    using assms(1) build_canonical_table_unfold [OF _ _ acc mx lt pq]
    by (simp add: pq_top_def)
qed

lemma single_symbol_nodes:
  "decode_nodes (single_symbol_table n s)
   = [\<lparr>node_left = 1, node_right = - 1, node_symbol = - 1\<rparr>,
      \<lparr>node_left = - 1, node_right = - 1, node_symbol = sint s\<rparr>]"
  by (simp add: single_symbol_table_def new_node_def)

lemma single_symbol_size [simp]: "enc_size (single_symbol_table n s) = n"
  by (simp add: single_symbol_table_def)

lemma single_symbol_entry:
  "enc (single_symbol_table n s) (unat s) = \<lparr>enc_code = 0, enc_len = 1, enc_valid = True\<rparr>"
  by (simp add: single_symbol_table_def)

lemma sint32_minus_one: "(s :: 32 word) \<noteq> 0xFFFFFFFF \<Longrightarrow> sint s \<noteq> - 1"
proof
  assume "s \<noteq> 0xFFFFFFFF" and "sint s = - 1"
  then have "word_of_int (sint s) = (word_of_int (- 1) :: 32 word)" by simp
  then have "s = - 1" by simp
  then show False using \<open>s \<noteq> 0xFFFFFFFF\<close> by simp
qed

lemma single_symbol_from_lengths:
  assumes "s \<noteq> 0xFFFFFFFF"
  shows "build_table_from_code_lengths [(s, 1)] = Inr (single_symbol_table (unat s + 1) s)"
proof -
  have un: "unat (s + 1) = unat s + 1"
    using unat32_max [OF assms] unat32_bound [of s] by (simp add: unat_word_ariths)
  have canon: "canonical_codes [(s, 1)] = [(s, 0, 1)]"
    by (simp add: canonical_codes_def)
  have walk: "insert_walk [new_node] 0 0 (Suc 0)
      = ([\<lparr>node_left = 1, node_right = - 1, node_symbol = - 1\<rparr>, new_node], 1)"
    by (simp add: new_node_def Let_def)
  have ins: "trie_insert msg [\<lparr>node_left = - 1, node_right = - 1, node_symbol = - 1\<rparr>] (s, 0, 1)
      = Inr [\<lparr>node_left = 1, node_right = - 1, node_symbol = - 1\<rparr>,
             \<lparr>node_left = - 1, node_right = - 1, node_symbol = sint s\<rparr>]" for msg
    unfolding trie_insert_def by (simp add: new_node_def Let_def)
  show ?thesis
    unfolding build_table_from_code_lengths_def Let_def
    by (simp add: canon un ins single_symbol_table_def new_node_def)
qed

lemma single_symbol_trie:
  assumes "s \<noteq> 0xFFFFFFFF"
  shows "trie_has (decode_nodes (single_symbol_table n s)) 0 [False] (sint s)"
  using sint32_minus_one [OF assms] by (simp add: single_symbol_nodes)

lemma single_symbol_writer:
  assumes "p < 8" and "unat s < m"
  shows "encode_symbols (single_symbol_table m s) (replicate n s)
           \<lparr>bw_data = replicate a 0, bw_cur = 0, bw_bit_pos = p\<rparr>
         = Inr \<lparr>bw_data = replicate (a + (p + n) div 8) 0, bw_cur = 0,
                bw_bit_pos = (p + n) mod 8\<rparr>"
  using assms(1)
proof (induction n arbitrary: a p)
  case 0
  then show ?case by simp
next
  case (Suc n)
  have wb: "write_bits \<lparr>bw_data = replicate a 0, bw_cur = 0, bw_bit_pos = p\<rparr> 0 1
      = Inr (if p = 7 then \<lparr>bw_data = replicate (Suc a) 0, bw_cur = 0, bw_bit_pos = 0\<rparr>
             else \<lparr>bw_data = replicate a 0, bw_cur = 0, bw_bit_pos = Suc p\<rparr>)"
    by (simp add: write_bits_def write_bit_def replicate_append_same)
  show ?case
  proof (cases "p = 7")
    case True
    have "(7 + Suc n) div 8 = Suc (n div 8)" "(7 + Suc n) mod 8 = n mod 8"
      by presburger+
    then show ?thesis
      using True assms(2) wb Suc.IH [of 0 "Suc a"]
      by (simp add: single_symbol_entry)
  next
    case False
    then have "Suc p < 8" using Suc.prems by simp
    then show ?thesis
      using False assms(2) wb Suc.IH [of "Suc p" a]
      by (simp add: single_symbol_entry)
  qed
qed

lemma single_symbol_bits:
  assumes "unat s < m"
  shows "ebind (encode_symbols (single_symbol_table m s) (replicate n s) new_bit_writer)
           (\<lambda>bw. Inr (t, bw_data (flush bw)))
         = Inr (t, replicate ((n + 7) div 8) 0)"
proof -
  have "encode_symbols (single_symbol_table m s) (replicate n s) new_bit_writer
      = Inr \<lparr>bw_data = replicate (n div 8) 0, bw_cur = 0, bw_bit_pos = n mod 8\<rparr>"
    using single_symbol_writer [of 0 s m n 0, OF _ assms] by (simp add: new_bit_writer_def)
  moreover have "(n + 7) div 8 = (if 0 < n mod 8 then Suc (n div 8) else n div 8)"
    by presburger
  ultimately show ?thesis
    by (simp add: flush_def replicate_append_same)
qed

lemma zero_byte_bits: "byte_bits 0 = replicate 8 False"
  by (simp add: byte_bits_def list_eq_iff_nth_eq)

lemma concat_replicate_replicate:
  "concat (replicate m (replicate k x)) = replicate (m * k) x"
  by (induction m) (simp_all add: replicate_add)

lemma single_symbol_decode:
  assumes "s \<noteq> 0xFFFFFFFF"
  shows "huff_decode (replicate ((n + 7) div 8) 0) (single_symbol_table m s) n
         = Inr (replicate n s)"
proof -
  let ?k = "(n + 7) div 8"
  have le: "n \<le> ?k * 8" by presburger
  have "br_bits (new_bit_reader (replicate ?k 0)) = replicate (?k * 8) False"
    by (simp add: br_bits_new zero_byte_bits concat_replicate_replicate)
  also have "\<dots> = concat (map (\<lambda>s. [False]) (replicate n s)) @ replicate (?k * 8 - n) False"
    using le by (simp add: concat_replicate_replicate replicate_add [symmetric])
  finally have bits: "br_bits (new_bit_reader (replicate ?k 0))
      = concat (map (\<lambda>s. [False]) (replicate n s)) @ replicate (?k * 8 - n) False" .
  have "decode_symbols (decode_nodes (single_symbol_table m s)) (length (replicate n s))
          (new_bit_reader (replicate ?k 0)) [] = Inr ([] @ replicate n s)"
    using single_symbol_trie [OF assms] bits
    by (intro decode_symbols_codes [where cw = "\<lambda>s. [False]"]) (auto simp: new_bit_reader_def)
  then show ?thesis by (simp add: huff_decode_def)
qed

lemma replicate_3: "replicate 3 x = [x, x, x]"
  by (simp add: numeral_3_eq_3)

text \<open>
  Claim C8. A stream of \<open>n\<close> copies of one symbol \<open>s\<close>, with \<open>0 < n < 2^32\<close> and \<open>s\<close> other
  than \<open>0xFFFFFFFF\<close>: \<open>huff_encode\<close> returns the single-symbol table and \<open>n\<close> zero bits
  padded to whole bytes. In that table the symbol has code 0 of length 1, and the decode
  trie is a root whose left child is the leaf of the symbol. The decoder's
  \<open>build_table_from_code_lengths\<close> on the one entry \<open>(s, 1)\<close> returns the same table, and
  \<open>huff_decode\<close> gives back the \<open>n\<close> copies of \<open>s\<close>.
\<close>

theorem single_symbol_round_trip:
  assumes "0 < n" and "n < 4294967296" and "s \<noteq> 0xFFFFFFFF"
  shows "huff_encode (replicate n s)
           = Some (Inr (single_symbol_table (unat s + 1) s, replicate ((n + 7) div 8) 0))
       \<and> enc (single_symbol_table (unat s + 1) s) (unat s)
           = \<lparr>enc_code = 0, enc_len = 1, enc_valid = True\<rparr>
       \<and> decode_nodes (single_symbol_table (unat s + 1) s)
           = [\<lparr>node_left = 1, node_right = - 1, node_symbol = - 1\<rparr>,
              \<lparr>node_left = - 1, node_right = - 1, node_symbol = sint s\<rparr>]
       \<and> build_table_from_code_lengths [(s, 1)] = Inr (single_symbol_table (unat s + 1) s)
       \<and> huff_decode (replicate ((n + 7) div 8) 0) (single_symbol_table (unat s + 1) s) n
           = Inr (replicate n s)"
proof -
  have nz: "(of_nat n :: 32 word) \<noteq> 0"
    using assms(1,2) by (simp add: word_of_nat_eq_0_iff dvd_eq_mod_eq_0 take_bit_eq_mod [symmetric] ) 
  have fr: "build_symbol_frequencies (replicate n s) = Inr [(s, of_nat n)]"
    using assms(1,2) by (simp add: single_symbol_frequencies)
  have "huff_encode (replicate n s)
      = Some (Inr (single_symbol_table (unat s + 1) s, replicate ((n + 7) div 8) 0))"
    unfolding huff_encode_def fr
    using assms(1) single_symbol_canonical_table [OF nz assms(3)]
    by (simp add: single_symbol_bits)
  then show ?thesis
    using single_symbol_entry single_symbol_nodes single_symbol_from_lengths [OF assms(3)]
      single_symbol_decode [OF assms(3)]
    by simp
qed

text \<open>The theorem on the stream \<open>5, 5, 5\<close>.\<close>

theorem single_symbol_round_trip_witness:
  "huff_encode [5, 5, 5] = Some (Inr (single_symbol_table 6 5, [0]))
   \<and> enc (single_symbol_table 6 5) 5 = \<lparr>enc_code = 0, enc_len = 1, enc_valid = True\<rparr>
   \<and> decode_nodes (single_symbol_table 6 5)
       = [\<lparr>node_left = 1, node_right = - 1, node_symbol = - 1\<rparr>,
          \<lparr>node_left = - 1, node_right = - 1, node_symbol = 5\<rparr>]
   \<and> build_table_from_code_lengths [(5, 1)] = Inr (single_symbol_table 6 5)
   \<and> huff_decode [0] (single_symbol_table 6 5) 3 = Inr [5, 5, 5]"
  using single_symbol_round_trip [of 3 5] by (simp add: replicate_3)


text \<open>
  Without the bound on \<open>n\<close> the encoder fails: a stream of \<open>2^32\<close> copies of the symbol 0
  has one distinct symbol, and \<open>build_symbol_frequencies\<close> throws when the count of a
  symbol would pass \<open>2^32 - 1\<close>.
\<close>

theorem single_symbol_overflow_counterexample:
  "set (replicate 4294967296 (0 :: 32 word)) = {0}
   \<and> huff_encode (replicate 4294967296 0)
       = Some (Inl (runtime_error ''huffman: frequency overflow''))"
  by (simp add: huff_encode_def single_symbol_frequencies)

section \<open>The quantizer in single precision\<close>

lemma bit_length_bounds:
  "0 < n \<Longrightarrow> 2 ^ (bit_length n - 1) \<le> n \<and> n < 2 ^ bit_length n"
proof (induction n rule: bit_length.induct)
  case (1 n)
  show ?case
  proof (cases "n = 1")
    case True
    have "bit_length 1 = Suc (bit_length 0)" by (subst bit_length.simps) simp
    also have "bit_length 0 = 0" by (subst bit_length.simps) simp
    finally show ?thesis using True by simp
  next
    case False
    then have half: "0 < n div 2" using "1.prems" by simp
    have ih: "2 ^ (bit_length (n div 2) - 1) \<le> n div 2 \<and> n div 2 < 2 ^ bit_length (n div 2)"
      using "1.IH" half "1.prems" by simp
    have bl: "bit_length n = Suc (bit_length (n div 2))"
      using "1.prems" by (subst bit_length.simps) simp
    have pos: "0 < bit_length (n div 2)"
      using half by (subst bit_length.simps) simp
    then have "(2 :: int) ^ bit_length (n div 2) = 2 * 2 ^ (bit_length (n div 2) - 1)"
      by (cases "bit_length (n div 2)") simp_all
    then show ?thesis unfolding bl using ih by simp linarith
  qed
qed

lemma bit_length_le: "0 < n \<Longrightarrow> n < 2 ^ k \<Longrightarrow> bit_length n \<le> k"
proof (rule ccontr)
  assume n: "0 < n" "n < 2 ^ k" and "\<not> bit_length n \<le> k"
  then have "k \<le> bit_length n - 1" by simp
  then have "(2 :: int) ^ k \<le> 2 ^ (bit_length n - 1)" by (rule power_increasing) simp
  then show False using bit_length_bounds [OF n(1)] n(2) by linarith
qed

lemma bit_length_pos: "0 < n \<Longrightarrow> 0 < bit_length n"
  by (subst bit_length.simps) simp

lemma round_even_int [simp]: "round_even (of_int k) = k"
  by (simp add: round_even_def)

lemma fl32_int_exact:
  assumes "\<bar>n\<bar> < 16777216"
  shows "fl32 (of_int n) = of_int n"
proof (cases "n = 0")
  case True
  then show ?thesis by (simp add: fl32_def)
next
  case False
  let ?a = "\<bar>n\<bar>"
  have pos: "0 < ?a" using False by simp
  have one: "(1 :: rat) \<le> \<bar>of_int n\<bar>" using pos by (simp flip: of_int_abs)
  have "bit_length ?a \<le> 24" using pos assms by (intro bit_length_le) simp_all
  moreover have "0 < bit_length ?a" using pos by (rule bit_length_pos)
  ultimately obtain d where d: "int (bit_length ?a) - 1 = 23 - int d" "d \<le> 23"
    by (intro that [of "24 - bit_length ?a"]) simp_all
  have il: "ilog2 \<bar>of_int n\<bar> = 23 - int d"
    using one d(1) by (simp add: ilog2_def flip: of_int_abs)
  have mx: "max (23 - int d) (- 126) = 23 - int d" using d(2) by simp
  have q: "pow2 (23 - int d - 23) = 1 / 2 ^ d"
    by (simp add: pow2_def)
  have "of_int n / (1 / 2 ^ d) = (of_int (n * 2 ^ d) :: rat)" by simp
  then have "round_even (of_int n / (1 / 2 ^ d)) = n * 2 ^ d"
    by (simp only: round_even_int)
  then show ?thesis
    using False unfolding fl32_def il mx q Let_def by simp
qed

lemma pow2_power_int: "pow2 e = power_int 2 e"
  by (simp add: pow2_def power_int_def power_inverse inverse_eq_divide power_one_over)

lemma pow2_pos [simp]: "0 < pow2 e"
  by (simp add: pow2_power_int)

lemma pow2_nonneg [simp]: "0 \<le> pow2 e"
  by (rule less_imp_le [OF pow2_pos])

lemma pow2_one: "pow2 1 = 2" and pow2_m24: "pow2 (- 24) = 1 / 2 ^ 24"
  and pow2_m150: "pow2 (- 150) = 1 / 2 ^ 150"
  by (simp_all add: pow2_def)

lemma pow2_add: "pow2 (a + b) = pow2 a * pow2 b"
  by (simp add: pow2_power_int power_int_add)

lemma pow2_nat: "pow2 (int k) = 2 ^ k"
  by (simp add: pow2_def)

lemma pow2_neg_nat: "pow2 (- int k) = 1 / 2 ^ k"
  by (cases "k = 0") (simp_all add: pow2_def)

lemma pow2_mono: "a \<le> b \<Longrightarrow> pow2 a \<le> pow2 b"
  unfolding pow2_power_int by (rule power_int_increasing) simp_all

lemma ilog2_bounds:
  assumes "0 < x"
  shows "pow2 (ilog2 x) \<le> x \<and> x < pow2 (ilog2 x + 1)"
proof (cases "1 \<le> x")
  case True
  define n where "n = \<lfloor>x\<rfloor>"
  define k where "k = bit_length n"
  have n: "0 < n" using True by (simp add: n_def)
  have b: "2 ^ (k - 1) \<le> n" "n < 2 ^ k"
    using bit_length_bounds [OF n] by (simp_all add: k_def)
  have k: "0 < k" unfolding k_def using n by (rule bit_length_pos)
  have il: "ilog2 x = int (k - 1)" using True k by (simp add: ilog2_def k_def n_def)
  have fl: "of_int n \<le> x" "x < of_int (n + 1)"
    using floor_correct [of x] by (simp_all add: n_def)
  have "(of_int (2 ^ (k - 1)) :: rat) \<le> of_int n" using b(1) by (simp only: of_int_le_iff)
  then have "(2 :: rat) ^ (k - 1) \<le> of_int n" by simp
  then have "(2 :: rat) ^ (k - 1) \<le> x" using fl(1) by (rule order_trans)
  then have lo: "pow2 (int (k - 1)) \<le> x" by (simp only: pow2_nat)
  have "n + 1 \<le> 2 ^ k" using b(2) by simp
  then have "(of_int (n + 1) :: rat) \<le> of_int (2 ^ k)" by (simp only: of_int_le_iff)
  then have "(of_int (n + 1) :: rat) \<le> 2 ^ k" by simp
  with fl(2) have "x < 2 ^ k" by (rule less_le_trans)
  then have "x < pow2 (int k)" by (simp only: pow2_nat)
  moreover have "int (k - 1) + 1 = int k" using k by simp
  ultimately have hi: "x < pow2 (int (k - 1) + 1)" by (simp only:)
  show ?thesis unfolding il using lo hi by (rule conjI)
next
  case False
  define y where "y = 1 / x"
  define m where "m = \<lceil>y\<rceil>"
  define k where "k = bit_length (m - 1)"
  have y1: "1 < y" using False assms by (simp add: y_def)
  then have m: "0 < m - 1" by (simp add: less_ceiling_iff m_def)
  have b: "2 ^ (k - 1) \<le> m - 1" "m - 1 < 2 ^ k"
    using bit_length_bounds [OF m] by (simp_all add: k_def)
  have k: "0 < k" unfolding k_def using m by (rule bit_length_pos)
  have il: "ilog2 x = - int k" using False by (simp add: ilog2_def k_def m_def y_def)
  have ce: "of_int (m - 1) < y" "y \<le> of_int m"
    using ceiling_correct [of y] by (simp_all add: m_def)
  have xy: "x = 1 / y" using assms by (simp add: y_def)
  have ypos: "0 < y" using y1 by simp
  have "m \<le> 2 ^ k" using b(2) by simp
  then have "(of_int m :: rat) \<le> of_int (2 ^ k)" by (simp only: of_int_le_iff)
  then have "(of_int m :: rat) \<le> 2 ^ k" by simp
  with ce(2) have "y \<le> 2 ^ k" by (rule order_trans)
  then have "1 / 2 ^ k \<le> 1 / y"
    by (rule divide_left_mono) (use ypos in simp_all)
  then have lo: "pow2 (- int k) \<le> x" by (simp only: pow2_neg_nat xy)
  have "(of_int (2 ^ (k - 1)) :: rat) \<le> of_int (m - 1)" using b(1) by (simp only: of_int_le_iff)
  then have "(2 :: rat) ^ (k - 1) \<le> of_int (m - 1)" by simp
  then have lt: "2 ^ (k - 1) < y" using ce(1) by (rule le_less_trans)
  have pp: "0 < y * 2 ^ (k - 1)" using ypos by simp
  have "1 / y < 1 / 2 ^ (k - 1)"
    using lt zero_less_one pp by (rule divide_strict_left_mono)
  then have "x < pow2 (- int (k - 1))" by (simp only: pow2_neg_nat xy)
  moreover have "- int k + 1 = - int (k - 1)" using k by simp
  ultimately have hi: "x < pow2 (- int k + 1)" by (simp only:)
  show ?thesis unfolding il using lo hi by (rule conjI)
qed

lemma round_even_error: "\<bar>of_int (round_even x) - x\<bar> \<le> 1 / 2"
proof -
  have aux: "\<bar>of_int (if x - of_int f < 1 / 2 then f else if 1 / 2 < x - of_int f then f + 1
                          else if even f then f else f + 1) - x\<bar> \<le> 1 / 2"
    if "of_int f \<le> x" "x < of_int f + 1" for f :: int
    using that by (auto simp: abs_if)
  have "of_int \<lfloor>x\<rfloor> \<le> x" "x < of_int \<lfloor>x\<rfloor> + 1" by linarith+
  then show ?thesis unfolding round_even_def Let_def by (rule aux)
qed

lemma round_away_error: "\<bar>of_int (round_away x) - x\<bar> \<le> 1 / 2"
proof -
  have aux: "\<bar>of_int f - y\<bar> \<le> 1 / 2"
    if "of_int f \<le> y + 1 / 2" "y + 1 / 2 < of_int f + 1" for f :: int and y :: rat
    using that by (auto simp: abs_if)
  have a: "\<bar>of_int \<lfloor>x + 1 / 2\<rfloor> - x\<bar> \<le> 1 / 2" by (rule aux) linarith+
  have c: "\<bar>of_int \<lfloor>- x + 1 / 2\<rfloor> - (- x)\<bar> \<le> 1 / 2" by (rule aux) linarith+
  have "of_int (- \<lfloor>- x + 1 / 2\<rfloor>) - x = - (of_int \<lfloor>- x + 1 / 2\<rfloor> - (- x))" by simp
  then have b: "\<bar>of_int (- \<lfloor>- x + 1 / 2\<rfloor>) - x\<bar> \<le> 1 / 2"
    by (simp only: abs_minus_cancel c)
  show ?thesis unfolding round_away_def using a b by simp
qed

text \<open>The rounding error of \<open>fl32\<close>: half a unit in the last place.\<close>

lemma fl32_error:
  "\<bar>fl32 x - x\<bar> \<le> \<bar>x\<bar> / 2 ^ 24 + 1 / 2 ^ 150"
proof (cases "x = 0")
  case True
  then show ?thesis by (simp add: fl32_def)
next
  case False
  let ?e = "max (ilog2 \<bar>x\<bar>) (- 126)"
  let ?q = "pow2 (?e - 23)"
  have pos: "0 < \<bar>x\<bar>" using False by simp
  have fl: "fl32 x = of_int (round_even (x / ?q)) * ?q"
    using False by (simp add: fl32_def Let_def)
  have qn: "?q \<noteq> 0" using pow2_pos [of "?e - 23"] by (simp only: less_imp_neq [symmetric] not_False_eq_True)
  have qa: "\<bar>?q\<bar> = ?q" using pow2_pos [of "?e - 23"] by (simp only: abs_of_pos)
  have "fl32 x - x = (of_int (round_even (x / ?q)) - x / ?q) * ?q"
    unfolding fl using qn by (simp add: left_diff_distrib)
  then have "\<bar>fl32 x - x\<bar> = \<bar>of_int (round_even (x / ?q)) - x / ?q\<bar> * ?q"
    by (simp only: abs_mult qa)
  also have "\<dots> \<le> 1 / 2 * ?q"
    by (rule mult_right_mono [OF round_even_error]) (rule less_imp_le [OF pow2_pos])
  also have "1 / 2 * ?q = pow2 (?e - 24)"
  proof -
    have "pow2 (?e - 23) = pow2 ((?e - 24) + 1)" by simp
    also have "\<dots> = pow2 (?e - 24) * pow2 1" by (rule pow2_add)
    finally show ?thesis by (simp add: pow2_one)
  qed
  also have "pow2 (?e - 24) \<le> \<bar>x\<bar> / 2 ^ 24 + 1 / 2 ^ 150"
  proof (cases "- 126 \<le> ilog2 \<bar>x\<bar>")
    case True
    then have "pow2 (?e - 24) = pow2 (ilog2 \<bar>x\<bar> + - 24)" by (simp add: max_def)
    also have "\<dots> = pow2 (ilog2 \<bar>x\<bar>) * pow2 (- 24)" by (rule pow2_add)
    also have "\<dots> \<le> \<bar>x\<bar> * pow2 (- 24)"
      using ilog2_bounds [OF pos] by (intro mult_right_mono) simp_all
    also have "\<dots> = \<bar>x\<bar> / 2 ^ 24" by (simp add: pow2_m24)
    finally show ?thesis by simp
  next
    case False
    then have "pow2 (?e - 24) = pow2 (- 150)" by (simp add: max_def)
    also have "\<dots> = 1 / 2 ^ 150" by (simp add: pow2_m150)
    finally show ?thesis by simp
  qed
  finally show ?thesis .
qed

lemma quant_step_range:
  "1 \<le> quant_step_from_quality quality \<and> quant_step_from_quality quality \<le> 100"
  by (simp add: quant_step_from_quality_def Let_def)

lemma quant_step_clamp:
  assumes "- 2147483546 \<le> quality" and "quality \<le> 2147483647"
  shows "quant_step_from_quality quality = min (max (101 - quality) 1) 100"
proof -
  have "int32 (101 - quality) = 101 - quality" using assms by (intro int32_id) simp_all
  then show ?thesis by (simp add: quant_step_from_quality_def Let_def min_def max_def)
qed

lemma fl32_step:
  assumes "1 \<le> step" and "step \<le> 100"
  shows "fl32 (of_int step) = of_int step"
  using assms by (intro fl32_int_exact) simp

text \<open>The error of the product with the rounded reciprocal.\<close>

lemma scaled_error:
  assumes step: "1 \<le> step" "step \<le> 100" and c: "\<bar>c\<bar> \<le> 1073741824"
  shows "\<bar>fl32 (c * fl32 (1 / of_int step)) - c / of_int step\<bar>
           \<le> \<bar>c / of_int step\<bar> / 2 ^ 22 + 1 / 2 ^ 100"
proof -
  define s :: rat where "s = of_int step"
  define r where "r = 1 / s"
  define inv where "inv = fl32 r"
  define v where "v = fl32 (c * inv)"
  define a where "a = \<bar>c\<bar>"
  have s1: "1 \<le> s" using step by (simp add: s_def)
  have r0: "0 < r" "r \<le> 1" using s1 by (simp_all add: r_def)
  have a0: "0 \<le> a" "a \<le> 1073741824" using c by (simp_all add: a_def)
  have e1: "\<bar>inv - r\<bar> \<le> r / 2 ^ 24 + 1 / 2 ^ 150"
    using fl32_error [of r] r0 by (simp add: inv_def)
  have e2: "\<bar>v - c * inv\<bar> \<le> \<bar>c * inv\<bar> / 2 ^ 24 + 1 / 2 ^ 150"
    unfolding v_def by (rule fl32_error)
  have "\<bar>inv\<bar> \<le> r + \<bar>inv - r\<bar>" using r0 by linarith
  then have i1: "\<bar>inv\<bar> \<le> r + (r / 2 ^ 24 + 1 / 2 ^ 150)" using e1 by linarith
  have ci: "\<bar>c * inv\<bar> \<le> a * (r + (r / 2 ^ 24 + 1 / 2 ^ 150))"
    unfolding abs_mult a_def by (rule mult_left_mono [OF i1]) simp
  have ce: "\<bar>c * (inv - r)\<bar> \<le> a * (r / 2 ^ 24 + 1 / 2 ^ 150)"
    unfolding abs_mult a_def by (rule mult_left_mono [OF e1]) simp
  have "v - c * r = (v - c * inv) + c * (inv - r)" by (simp add: right_diff_distrib)
  then have "\<bar>v - c * r\<bar> \<le> \<bar>v - c * inv\<bar> + \<bar>c * (inv - r)\<bar>" by (simp only: abs_triangle_ineq)
  also have "\<dots> \<le> (a * (r + (r / 2 ^ 24 + 1 / 2 ^ 150)) / 2 ^ 24 + 1 / 2 ^ 150)
       + a * (r / 2 ^ 24 + 1 / 2 ^ 150)"
  proof -
    have "\<bar>c * inv\<bar> / 2 ^ 24 \<le> a * (r + (r / 2 ^ 24 + 1 / 2 ^ 150)) / 2 ^ 24"
      using ci by (rule divide_right_mono) simp
    then show ?thesis using e2 ce by linarith
  qed
  also have "\<dots> \<le> a * r / 2 ^ 22 + 1 / 2 ^ 100"
  proof -
    define p where "p = a * r"
    have p0: "0 \<le> p" using a0 r0 by (simp add: p_def)
    have x1: "a * (r + (r / 2 ^ 24 + 1 / 2 ^ 150)) = p + (p / 2 ^ 24 + a / 2 ^ 150)"
      by (simp add: p_def distrib_left)
    have x2: "a * (r / 2 ^ 24 + 1 / 2 ^ 150) = p / 2 ^ 24 + a / 2 ^ 150"
      by (simp add: p_def distrib_left)
    have "(p + (p / 2 ^ 24 + a / 2 ^ 150)) / 2 ^ 24 + 1 / 2 ^ 150 + (p / 2 ^ 24 + a / 2 ^ 150)
        \<le> p / 2 ^ 22 + 1 / 2 ^ 100"
      using p0 a0 by (simp add: add_divide_distrib; linarith)
    then show ?thesis unfolding x1 x2 p_def .
  qed
  finally have "\<bar>v - c * r\<bar> \<le> a * r / 2 ^ 22 + 1 / 2 ^ 100" .
  moreover have "c * r = c / s" by (simp add: r_def)
  moreover have "a * r = \<bar>c / s\<bar>" using s1 by (simp add: a_def r_def abs_divide)
  ultimately show ?thesis by (simp add: v_def inv_def r_def s_def)
qed

lemma quant_in_range:
  assumes step: "1 \<le> step" "step \<le> 100" and c: "\<bar>c\<bar> \<le> 1073741824"
  shows "- 2147483648 \<le> round_away (fl32 (c * fl32 (1 / of_int step)))"
    and "round_away (fl32 (c * fl32 (1 / of_int step))) \<le> 2147483647"
proof -
  define v where "v = fl32 (c * fl32 (1 / of_int step))"
  define d :: rat where "d = c / of_int step"
  have "\<bar>d\<bar> = \<bar>c\<bar> / of_int step" using step by (simp add: d_def abs_divide)
  also have "\<dots> \<le> \<bar>c\<bar> / 1" using step by (intro divide_left_mono) simp_all
  finally have d: "\<bar>d\<bar> \<le> 1073741824" using c by simp
  have "\<bar>v - d\<bar> \<le> \<bar>d\<bar> / 2 ^ 22 + 1 / 2 ^ 100"
    unfolding v_def d_def using assms by (rule scaled_error)
  then have v: "\<bar>v\<bar> \<le> 1073742081" using d by (simp add: abs_if split: if_splits; linarith)
  have "\<bar>of_int (round_away v) - v\<bar> \<le> 1 / 2" by (rule round_away_error)
  then have "\<bar>(of_int (round_away v) :: rat)\<bar> \<le> 1073742082" using v by linarith
  then have "\<bar>round_away v\<bar> \<le> 1073742082"
    by (metis of_int_abs of_int_le_iff of_int_numeral)
  then show "- 2147483648 \<le> round_away (fl32 (c * fl32 (1 / of_int step)))"
    and "round_away (fl32 (c * fl32 (1 / of_int step))) \<le> 2147483647"
    unfolding v_def by linarith+
qed

lemma quant_elem_value:
  assumes "1 \<le> step" "step \<le> 100" "\<bar>c\<bar> \<le> 1073741824"
  shows "quant_elem c (fl32 (1 / fl32 (of_int step))) = Inr (word_of_int (quantized c step))"
proof -
  note r = quant_in_range [OF assms]
  have "(if 32767 < q then 32767 else if q < - 32768 then - 32768 else q)
      = min (max q (- 32768)) 32767" for q :: int
    by (simp add: min_def max_def)
  then show ?thesis
    using r unfolding quant_elem_def quantized_def Let_def fl32_step [OF assms(1,2)]
    by (simp add: not_less)
qed

lemma quantize_loop_values:
  assumes "1 \<le> step" "step \<le> 100"
  shows "\<forall>c \<in> set x. \<bar>c\<bar> \<le> 1073741824 \<Longrightarrow>
         quantize_loop x (fl32 (1 / fl32 (of_int step)))
           = Inr (map (\<lambda>c. word_of_int (quantized c step)) x)"
  by (induction x) (simp_all add: quant_elem_value [OF assms])

lemma quantized_range: "- 32768 \<le> quantized c step \<and> quantized c step \<le> 32767"
  by (simp add: quantized_def)

lemma sint16_of_int: "- 32768 \<le> q \<Longrightarrow> q \<le> 32767 \<Longrightarrow> sint (word_of_int q :: 16 word) = q"
  by (simp add: sint_sbintrunc' signed_take_bit_int_eq_self)

lemma sint16_range: "- 32768 \<le> sint (q :: 16 word) \<and> sint q \<le> 32767"
  using sint_range_size [of q] by (simp add: word_size)

lemma dequant_exact:
  assumes "1 \<le> step" "step \<le> 100"
  shows "fl32 (fl32 (of_int (sint (q :: 16 word))) * fl32 (of_int step)) = of_int (sint q * step)"
proof -
  have r: "- 32768 \<le> sint q" "sint q \<le> 32767" using sint16_range [of q] by simp_all
  have a: "fl32 (of_int (sint q)) = of_int (sint q)" using r by (intro fl32_int_exact) simp
  have "\<bar>sint q * step\<bar> = \<bar>sint q\<bar> * step" using assms by (simp add: abs_mult)
  also have "\<dots> \<le> 32768 * 100" using r assms by (intro mult_mono) simp_all
  finally have "\<bar>sint q * step\<bar> < 16777216" by simp
  then have "fl32 (of_int (sint q * step)) = of_int (sint q * step)" by (rule fl32_int_exact)
  then show ?thesis unfolding a fl32_step [OF assms] by simp
qed

lemma dequantize_exact:
  assumes "B = 8 \<or> B = 16" and "length qs mod nat (B * B) = 0"
  shows "dequantize qs B quality
         = Inr (map (\<lambda>q. of_int (sint q * quant_step_from_quality quality)) qs)"
proof -
  let ?step = "quant_step_from_quality quality"
  have st: "1 \<le> ?step" "?step \<le> 100" using quant_step_range [of quality] by simp_all
  have eq: "map (\<lambda>q. fl32 (fl32 (of_int (sint q)) * fl32 (of_int ?step))) qs
      = map (\<lambda>q. of_int (sint q * ?step)) qs"
    by (rule map_cong [OF refl]) (rule dequant_exact [OF st])
  have c1: "\<not> (B \<noteq> 8 \<and> B \<noteq> 16)" using assms(1) by auto
  have c2: "\<not> length qs mod nat (B * B) \<noteq> 0" using assms(2) by simp
  show ?thesis
    unfolding dequantize_def Let_def by (simp only: c1 c2 if_False eq)
qed

lemma quantize_values:
  assumes "B = 8 \<or> B = 16" and "length x mod nat (B * B) = 0"
    and "\<forall>c \<in> set x. \<bar>c\<bar> \<le> 1073741824"
  shows "quantize x B quality
         = Inr (map (\<lambda>c. word_of_int (quantized c (quant_step_from_quality quality))) x)"
proof -
  let ?step = "quant_step_from_quality quality"
  have st: "1 \<le> ?step" "?step \<le> 100" using quant_step_range [of quality] by simp_all
  have c1: "\<not> (B \<noteq> 8 \<and> B \<noteq> 16)" using assms(1) by auto
  have c2: "\<not> length x mod nat (B * B) \<noteq> 0" using assms(2) by simp
  show ?thesis
    unfolding quantize_def Let_def
    by (simp only: c1 c2 if_False quantize_loop_values [OF st assms(3)])
qed

lemma sint_quantized:
  "sint (word_of_int (quantized c step) :: 16 word) = quantized c step"
  using quantized_range [of c step] by (intro sint16_of_int) simp_all

text \<open>
  Claim C4, as the code has it. For a quality that is an \<open>int\<close> with \<open>101 - quality\<close> in
  range, the step is \<open>clamp(101 - quality, 1, 100)\<close>. For a buffer of whole blocks whose
  coefficients are at most \<open>2^30\<close> in magnitude, \<open>quantize\<close> returns for every coefficient
  \<open>c\<close> the value \<open>round(fl(c * fl(1 / step)))\<close> clamped to 16 bits, where \<open>fl\<close> rounds to
  single precision: the product with the rounded reciprocal, not the quotient. The
  rounded value is within \<open>1/2 + |c / step| / 2^22 + 2^-100\<close> of \<open>c / step\<close>. \<open>dequantize\<close>
  returns \<open>q * step\<close> for every element with no rounding error, so \<open>dequantize\<close> after
  \<open>quantize\<close> gives exactly the quantized value times the step.
\<close>

theorem quantizer_contract:
  assumes "B = 8 \<or> B = 16"
    and "length x mod nat (B * B) = 0" and "length qs mod nat (B * B) = 0"
    and "- 2147483546 \<le> quality" and "quality \<le> 2147483647"
    and "\<forall>c \<in> set x. \<bar>c\<bar> \<le> 1073741824"
  shows "(let step = quant_step_from_quality quality in
            step = min (max (101 - quality) 1) 100
          \<and> quantize x B quality = Inr (map (\<lambda>c. word_of_int (quantized c step)) x)
          \<and> (\<forall>c \<in> set x.
                \<bar>of_int (round_away (fl32 (c * fl32 (1 / of_int step)))) - c / of_int step\<bar>
                  \<le> 1 / 2 + \<bar>c / of_int step\<bar> / 2 ^ 22 + 1 / 2 ^ 100)
          \<and> dequantize qs B quality = Inr (map (\<lambda>q. of_int (sint q * step)) qs)
          \<and> ebind (quantize x B quality) (\<lambda>q. dequantize q B quality)
              = Inr (map (\<lambda>c. of_int (quantized c step * step)) x))"
proof -
  let ?step = "quant_step_from_quality quality"
  have st: "1 \<le> ?step" "?step \<le> 100" using quant_step_range [of quality] by simp_all
  have a: "?step = min (max (101 - quality) 1) 100"
    using assms(4,5) by (rule quant_step_clamp)
  have b: "quantize x B quality = Inr (map (\<lambda>c. word_of_int (quantized c ?step)) x)"
    using assms(1,2,6) by (rule quantize_values)
  have c: "\<forall>c \<in> set x.
      \<bar>of_int (round_away (fl32 (c * fl32 (1 / of_int ?step)))) - c / of_int ?step\<bar>
        \<le> 1 / 2 + \<bar>c / of_int ?step\<bar> / 2 ^ 22 + 1 / 2 ^ 100"
  proof
    fix c assume "c \<in> set x"
    then have cb: "\<bar>c\<bar> \<le> 1073741824" using assms(6) by blast
    let ?v = "fl32 (c * fl32 (1 / of_int ?step))"
    have "\<bar>?v - c / of_int ?step\<bar> \<le> \<bar>c / of_int ?step\<bar> / 2 ^ 22 + 1 / 2 ^ 100"
      using st cb by (rule scaled_error)
    moreover have "\<bar>of_int (round_away ?v) - ?v\<bar> \<le> 1 / 2" by (rule round_away_error)
    ultimately show "\<bar>of_int (round_away ?v) - c / of_int ?step\<bar>
        \<le> 1 / 2 + \<bar>c / of_int ?step\<bar> / 2 ^ 22 + 1 / 2 ^ 100"
      by linarith
  qed
  have d: "dequantize qs B quality = Inr (map (\<lambda>q. of_int (sint q * ?step)) qs)"
    using assms(1,3) by (rule dequantize_exact)
  have "length (map (\<lambda>c. word_of_int (quantized c ?step) :: 16 word) x) mod nat (B * B) = 0"
    using assms(2) by simp
  from dequantize_exact [OF assms(1) this, of quality]
  have "dequantize (map (\<lambda>c. word_of_int (quantized c ?step)) x) B quality
      = Inr (map (\<lambda>c. of_int (quantized c ?step * ?step)) x)"
    by (simp only: map_map comp_def sint_quantized)
  then have e: "ebind (quantize x B quality) (\<lambda>q. dequantize q B quality)
      = Inr (map (\<lambda>c. of_int (quantized c ?step * ?step)) x)"
    unfolding b by (simp only: ebind_Inr)
  show ?thesis unfolding Let_def using a b c d e by blast
qed

lemma quantized_example: "quantized (7 / 2) 2 = 2" "quantized 0 2 = 0"
  by code_simp+

lemma quant_step_examples: "quant_step_from_quality 99 = 2" "quant_step_from_quality 98 = 3"
  by (simp_all add: quant_step_from_quality_def int32_id)

text \<open>The theorem at quality 99 (step 2) on a block that starts with \<open>3.5\<close>.\<close>

theorem quantizer_contract_witness:
  "list_all (\<lambda>c. \<bar>c\<bar> \<le> 1073741824) (7 / 2 # replicate 63 (0 :: rat))
   \<and> length (7 / 2 # replicate 63 (0 :: rat)) mod nat (8 * 8) = 0
   \<and> quant_step_from_quality 99 = 2
   \<and> quantize (7 / 2 # replicate 63 0) 8 99 = Inr (2 # replicate 63 0)
   \<and> dequantize (replicate 64 7) 8 99 = Inr (replicate 64 14)
   \<and> ebind (quantize (7 / 2 # replicate 63 0) 8 99) (\<lambda>q. dequantize q 8 99)
       = Inr (4 # replicate 63 0)"
proof -
  have h: "(8 :: int) = 8 \<or> (8 :: int) = 16"
    "length (7 / 2 # replicate 63 (0 :: rat)) mod nat (8 * 8) = 0"
    "length (replicate 64 (7 :: 16 word)) mod nat (8 * 8) = 0"
    "- 2147483546 \<le> (99 :: int)" "(99 :: int) \<le> 2147483647"
    "\<forall>c \<in> set (7 / 2 # replicate 63 (0 :: rat)). \<bar>c\<bar> \<le> 1073741824"
    by simp_all
  note t = quantizer_contract [OF h, unfolded Let_def quant_step_examples]
  have q: "quantize (7 / 2 # replicate 63 0) 8 99 = Inr (2 # replicate 63 0)"
    using t by (simp add: quantized_example)
  have d: "dequantize (replicate 64 7) 8 99 = Inr (replicate 64 14)"
    using t by simp
  have m: "map (\<lambda>c. of_int (quantized c 2 * 2)) (7 / 2 # replicate 63 0)
      = (4 # replicate 63 (0 :: rat))"
    by (simp add: quantized_example)
  have e: "ebind (quantize (7 / 2 # replicate 63 0) 8 99) (\<lambda>q. dequantize q 8 99)
       = Inr (4 # replicate 63 0)"
    using t [THEN conjunct2, THEN conjunct2, THEN conjunct2, THEN conjunct2]
    by (simp only: m)
  have l: "list_all (\<lambda>c. \<bar>c\<bar> \<le> 1073741824) (7 / 2 # replicate 63 (0 :: rat))"
    using h(6) by (simp only: list_all_iff)
  show ?thesis using q d e l h(2) quant_step_examples(1) by simp
qed

lemma boundary_value:
  "fl32 (15728639 / 2097152) = 15728639 / 2097152"
  "quant_elem (15728639 / 2097152) (fl32 (1 / fl32 3)) = Inr 3"
  "round_away ((15728639 / 2097152) / 3) = 2"
  "fl32 (fl32 3 * fl32 3) = 9"
  by code_simp+

text \<open>
  The coefficient \<open>15728639 / 2^21\<close> (the float next below \<open>7.5\<close>) at quality 98, step 3:
  the quotient \<open>c / 3\<close> is below \<open>2.5\<close> and rounds to 2, but the product with
  \<open>fl(1/3)\<close> is rounded to \<open>2.5\<close> and \<open>quantize\<close> stores 3; \<open>dequantize\<close> then gives 9, not 6.
\<close>

theorem quantizer_boundary_counterexample:
  "fl32 (15728639 / 2097152) = 15728639 / 2097152
   \<and> quant_step_from_quality 98 = 3
   \<and> round_away ((15728639 / 2097152) / 3) = 2
   \<and> quantize (15728639 / 2097152 # replicate 63 0) 8 98 = Inr (3 # replicate 63 0)
   \<and> dequantize (3 # replicate 63 0) 8 98 = Inr (9 # replicate 63 0)"
proof -
  have q: "quantize (15728639 / 2097152 # replicate 63 0) 8 98 = Inr (3 # replicate 63 0)"
    by (simp add: quantize_def quant_step_examples boundary_value quantize_loop_zeros)
  have d: "dequantize (3 # replicate 63 0) 8 98 = Inr (9 # replicate 63 0)"
    by (simp add: dequantize_exact quant_step_examples)
  show ?thesis using q d boundary_value(1,3) quant_step_examples(2) by simp
qed

section \<open>Round trip of the Huffman coder\<close>

lemma kraft_simps [simp]:
  "kraft [] = 0"
  "kraft ((s, l) # ls) = 2 ^ (32 - unat l) + kraft ls"
  "kraft (xs @ ys) = kraft xs + kraft ys"
  by (simp_all add: kraft_def)











lemma length_code_bits [simp]: "length (code_bits c l) = l"
  by (simp add: code_bits_def)






lemma child_set_child [simp]:
  "child (set_child nd b x) b' = (if b' = b then x else child nd b')"
  by (auto simp: child_def set_child_def)

lemma symbol_set_child [simp]: "node_symbol (set_child nd b x) = node_symbol nd"
  by (simp add: set_child_def)

lemma child_new_node [simp]: "child new_node b = - 1"
  by (simp add: child_def new_node_def)

lemma symbol_new_node [simp]: "node_symbol new_node = - 1"
  by (simp add: new_node_def)

lemma child_symbol_update [simp]: "child (nd\<lparr>node_symbol := v\<rparr>) b = child nd b"
  by (simp add: child_def)



































end
